theory Spec2Isabelle
  imports Main "HOL-Library.Word" "HOL-Library.Sublist"
begin

section \<open>The atom table of js/vm/JSAtom.cpp\<close>

text \<open>
  A shallow embedding of the interned-string table of \<^verbatim>\<open>src/js/vm/JSAtom.cpp\<close>.
  Atoms live in a store (a list of atom cells); a \<^verbatim>\<open>JSAtom*\<close> is an index into it,
  so identity of atoms is equality of indices. Every function of the source that mutates
  the runtime takes the state and returns the new one. Locks are not modelled: the
  embedding is the sequential behaviour of each operation.
\<close>

subsection \<open>Atoms, entries and lookup keys\<close>

type_synonym HashNumber = "32 word"
type_synonym JSAtomPtr = nat

text \<open>
  The character storage of a string: \<^verbatim>\<open>Latin1Char\<close> (8 bit) or \<^verbatim>\<open>char16_t\<close>
  code units. The source keeps a pointer, a length and \<^verbatim>\<open>isLatin1\<close>.
\<close>

datatype Chars = Latin1Chars "8 word list" | TwoByteChars "16 word list"

fun codeUnits :: "Chars \<Rightarrow> nat list" where
  "codeUnits (Latin1Chars cs) = map unat cs"
| "codeUnits (TwoByteChars cs) = map unat cs"

fun hasLatin1Chars :: "Chars \<Rightarrow> bool" where
  "hasLatin1Chars (Latin1Chars cs) = True"
| "hasLatin1Chars (TwoByteChars cs) = False"

fun charsLength :: "Chars \<Rightarrow> nat" where
  "charsLength (Latin1Chars cs) = length cs"
| "charsLength (TwoByteChars cs) = length cs"

text \<open>
  A \<^verbatim>\<open>JSAtom\<close> cell: its characters, the hash cached in it, the pinned and permanent
  flag bits and the cached array index (\<^verbatim>\<open>maybeInitializeIndex\<close>).
\<close>

record JSAtom =
  a_chars :: Chars
  a_hash :: HashNumber
  a_pinned :: bool
  a_permanent :: bool
  a_index :: "nat option"

type_synonym Heap = "JSAtom list"

text \<open>\<^verbatim>\<open>AtomStateEntry\<close>: a tagged pointer, the atom and the entry's own pinned bit.\<close>

record AtomStateEntry =
  asPtrUnbarriered :: JSAtomPtr
  isPinned :: bool

text \<open>
  Modelled from the spec: \<^verbatim>\<open>AtomSet\<close> is a \<^verbatim>\<open>mozilla::HashSet\<close> of entries
  hashed and compared by \<^verbatim>\<open>AtomHasher\<close>; the hash table itself is not among the
  sources. It is the list of its live entries in iteration order. A \<^verbatim>\<open>Ptr\<close> or
  \<^verbatim>\<open>AddPtr\<close> is the position of the entry found, or \<open>None\<close>.
\<close>

type_synonym AtomSet = "AtomStateEntry list"

text \<open>
  Declarations the source uses and the repository excerpt does not hold, taken as
  parameters: the step \<^verbatim>\<open>mozilla::AddToHash\<close> that mixes one value into a hash, the
  collector's \<^verbatim>\<open>IsAboutToBeFinalizedUnbarriered\<close>, the bound of
  \<^verbatim>\<open>JSString::validateLength\<close>, \<^verbatim>\<open>AtomsTable::PartitionShift\<close>, and whether
  \<^verbatim>\<open>putNew\<close> of an atom's entry finds memory during a merge.
\<close>

record Env =
  AddToHash :: "HashNumber \<Rightarrow> HashNumber \<Rightarrow> HashNumber"
  IsAboutToBeFinalized :: "JSAtomPtr \<Rightarrow> bool"
  MAX_LENGTH :: nat
  PartitionShift :: nat
  putNewOk :: "JSAtomPtr \<Rightarrow> bool"

text \<open>
  \<^verbatim>\<open>AtomHasher::Lookup\<close>. The union of the two character pointers, \<^verbatim>\<open>isLatin1\<close>
  and \<^verbatim>\<open>length\<close> are the field \<open>l_chars\<close>; \<open>l_atom\<close> is the optional atom.
\<close>

record Lookup =
  l_chars :: Chars
  l_atom :: "JSAtomPtr option"
  l_hash :: HashNumber

text \<open>
  Modelled from the spec: \<^verbatim>\<open>mozilla::HashString(chars, length)\<close> (mfbt, not among the
  sources) has one overload for \<^verbatim>\<open>Latin1Char\<close> and one for \<^verbatim>\<open>char16_t\<close>
  characters. The spec makes the hash a pure function of the content: the hash starts at
  0 and every code unit, in order, widened without sign to 32 bits, is mixed in by
  \<^verbatim>\<open>AddToHash\<close>. The one definition below is both overloads, at the two widths.
\<close>

definition HashString :: "Env \<Rightarrow> 'a::len word list \<Rightarrow> HashNumber" where
  "HashString env chars = foldl (\<lambda>hash c. AddToHash env hash (ucast c)) 0 chars"

text \<open>
  The two constructors from characters (lines 57-65), each with the overload of
  \<^verbatim>\<open>HashString\<close> for its characters.
\<close>

definition Lookup_chars :: "Env \<Rightarrow> Chars \<Rightarrow> Lookup" where
  "Lookup_chars env cs =
     (case cs of
        TwoByteChars chars \<Rightarrow> \<lparr>l_chars = cs, l_atom = None, l_hash = HashString env chars\<rparr>
      | Latin1Chars chars \<Rightarrow> \<lparr>l_chars = cs, l_atom = None, l_hash = HashString env chars\<rparr>)"

text \<open>
  The constructor from an atom (lines 67-78) reads the atom: \<open>None\<close> is the
  dereference of a pointer that is not an atom of the store.
\<close>

definition Lookup_atom :: "Heap \<Rightarrow> JSAtomPtr \<Rightarrow> Lookup option" where
  "Lookup_atom heap atom =
     (if atom < length heap
      then Some \<lparr>l_chars = a_chars (heap ! atom), l_atom = Some atom,
                 l_hash = a_hash (heap ! atom)\<rparr>
      else None)"

text \<open>
  Modelled from the spec: \<^verbatim>\<open>mozilla::ArrayEqual\<close> and \<^verbatim>\<open>EqualChars\<close> (util/Text.h)
  compare the first \<open>length\<close> code units, the narrow ones widened.
\<close>

definition ArrayEqual :: "'a list \<Rightarrow> 'a list \<Rightarrow> nat \<Rightarrow> bool" where
  "ArrayEqual xs ys n = (take n xs = take n ys)"

definition EqualChars :: "8 word list \<Rightarrow> 16 word list \<Rightarrow> nat \<Rightarrow> bool" where
  "EqualChars xs ys n = (map unat (take n xs) = map unat (take n ys))"

text \<open>
  \<^verbatim>\<open>AtomHasher::match\<close> (lines 87-111). A key that is not an atom of the store is a
  state the table never reaches; it compares unequal.
\<close>

definition match :: "Heap \<Rightarrow> AtomStateEntry \<Rightarrow> Lookup \<Rightarrow> bool" where
  "match heap entry lookup =
     (let key = asPtrUnbarriered entry in
      case l_atom lookup of
        Some a \<Rightarrow> a = key
      | None \<Rightarrow>
          if \<not> key < length heap then False
          else if charsLength (a_chars (heap ! key)) \<noteq> charsLength (l_chars lookup)
                  \<or> a_hash (heap ! key) \<noteq> l_hash lookup
          then False
          else (case a_chars (heap ! key) of
                  Latin1Chars keyChars \<Rightarrow>
                    (case l_chars lookup of
                       Latin1Chars cs \<Rightarrow> ArrayEqual keyChars cs (charsLength (l_chars lookup))
                     | TwoByteChars cs \<Rightarrow> EqualChars keyChars cs (charsLength (l_chars lookup)))
                | TwoByteChars keyChars \<Rightarrow>
                    (case l_chars lookup of
                       Latin1Chars cs \<Rightarrow> EqualChars cs keyChars (charsLength (l_chars lookup))
                     | TwoByteChars cs \<Rightarrow> ArrayEqual keyChars cs (charsLength (l_chars lookup)))))"

subsection \<open>Operations of the hash set\<close>

text \<open>
  Modelled from the spec: \<^verbatim>\<open>lookup\<close>, \<^verbatim>\<open>lookupForAdd\<close> and
  \<^verbatim>\<open>readonlyThreadsafeLookup\<close> of \<^verbatim>\<open>mozilla::HashSet\<close> give the position of the
  entry that \<open>match\<close> accepts; \<^verbatim>\<open>add\<close> and \<^verbatim>\<open>putNew\<close> store one more entry.
\<close>

fun AtomSet_lookup :: "Heap \<Rightarrow> AtomSet \<Rightarrow> Lookup \<Rightarrow> nat option" where
  "AtomSet_lookup heap [] l = None"
| "AtomSet_lookup heap (e # es) l =
     (if match heap e l then Some 0 else map_option Suc (AtomSet_lookup heap es l))"

definition AtomSet_add :: "AtomSet \<Rightarrow> AtomStateEntry \<Rightarrow> AtomSet" where
  "AtomSet_add s e = s @ [e]"

text \<open>\<^verbatim>\<open>p->setPinned(true)\<close> on the entry a \<^verbatim>\<open>Ptr\<close> refers to.\<close>

definition Entry_setPinned :: "AtomSet \<Rightarrow> nat \<Rightarrow> AtomSet" where
  "Entry_setPinned s k = s[k := (s ! k)\<lparr>isPinned := True\<rparr>]"

text \<open>
  Modelled from the spec: \<^verbatim>\<open>HashSet::Enum\<close>, the iterator that may remove the entry
  it stands on. \<open>e_cur\<close> is the position of the front entry. \<^verbatim>\<open>removeFront\<close> takes
  the front entry out of the set and leaves the iterator on its emptied slot
  (\<open>e_removed\<close>); \<^verbatim>\<open>popFront\<close> moves to the next live entry.
\<close>

record Enum =
  e_cur :: nat
  e_removed :: bool

definition Enum_init :: "Enum" where
  "Enum_init = \<lparr>e_cur = 0, e_removed = False\<rparr>"

definition Enum_empty :: "AtomSet \<Rightarrow> Enum \<Rightarrow> bool" where
  "Enum_empty s e = (\<not> e_removed e \<and> length s \<le> e_cur e)"

definition Enum_front :: "AtomSet \<Rightarrow> Enum \<Rightarrow> AtomStateEntry" where
  "Enum_front s e = s ! e_cur e"

definition Enum_removeFront :: "AtomSet \<Rightarrow> Enum \<Rightarrow> AtomSet \<times> Enum" where
  "Enum_removeFront s e = (take (e_cur e) s @ drop (Suc (e_cur e)) s, e\<lparr>e_removed := True\<rparr>)"

definition Enum_popFront :: "Enum \<Rightarrow> Enum" where
  "Enum_popFront e = (if e_removed e then e\<lparr>e_removed := False\<rparr> else e\<lparr>e_cur := Suc (e_cur e)\<rparr>)"

subsection \<open>Partitions and the table\<close>

text \<open>
  \<^verbatim>\<open>AtomsTable::Partition\<close>: the primary set \<open>atoms\<close> and the secondary set
  \<open>atomsAddedWhileSweeping\<close>, a pointer that is null (\<open>None\<close>) outside a sweep.
\<close>

record Partition =
  atoms :: AtomSet
  atomsAddedWhileSweeping :: "AtomSet option"

record AtomsTable =
  partitions :: "Partition list"

definition PartitionCount :: "AtomsTable \<Rightarrow> nat" where
  "PartitionCount t = length (partitions t)"

text \<open>\<^verbatim>\<open>Partition::Partition\<close> and \<^verbatim>\<open>AtomsTable::init\<close> (lines 279-307).\<close>

definition Partition_new :: "Partition" where
  "Partition_new = \<lparr>atoms = [], atomsAddedWhileSweeping = None\<rparr>"

definition AtomsTable_init :: "Env \<Rightarrow> AtomsTable" where
  "AtomsTable_init env = \<lparr>partitions = replicate (2 ^ PartitionShift env) Partition_new\<rparr>"

text \<open>\<^verbatim>\<open>getPartitionIndex\<close> (lines 337-343): the high bits of the 32-bit hash.\<close>

definition getPartitionIndex :: "Env \<Rightarrow> Lookup \<Rightarrow> nat" where
  "getPartitionIndex env lookup = unat (drop_bit (32 - PartitionShift env) (l_hash lookup))"

text \<open>
  \<^verbatim>\<open>tracePinnedAtomsInSet\<close> and \<^verbatim>\<open>tracePinnedAtoms\<close> (lines 345-369): the atoms
  handed to \<^verbatim>\<open>TraceRoot\<close>, in order.
\<close>

definition tracePinnedAtomsInSet :: "AtomSet \<Rightarrow> JSAtomPtr list" where
  "tracePinnedAtomsInSet s = map asPtrUnbarriered (filter isPinned s)"

definition tracePinnedAtoms :: "AtomsTable \<Rightarrow> JSAtomPtr list" where
  "tracePinnedAtoms t =
     concat (map (\<lambda>part. tracePinnedAtomsInSet (atoms part)
                          @ (case atomsAddedWhileSweeping part of
                               None \<Rightarrow> []
                             | Some added \<Rightarrow> tracePinnedAtomsInSet added))
                 (partitions t))"

subsection \<open>Sweeping\<close>

text \<open>
  The inner loop of \<^verbatim>\<open>sweepAll\<close> (lines 435-440):
  \<^verbatim>\<open>for (AtomSet::Enum e(atoms); !e.empty(); e.popFront())\<close>.
\<close>

function sweepAll_loop :: "Env \<Rightarrow> AtomSet \<Rightarrow> Enum \<Rightarrow> AtomSet" where
  "sweepAll_loop env s e =
     (if Enum_empty s e then s
      else (let atom = asPtrUnbarriered (Enum_front s e);
                (s', e') = (if IsAboutToBeFinalized env atom then Enum_removeFront s e
                            else (s, e))
            in sweepAll_loop env s' (Enum_popFront e')))"
  by pat_completeness auto
termination
  by (relation "measure (\<lambda>(env, s, e). length s - e_cur e + (if e_removed e then 1 else 0))")
     (auto simp: Enum_empty_def Enum_removeFront_def Enum_popFront_def split: if_splits)

text \<open>\<^verbatim>\<open>AtomsTable::sweepAll\<close> (lines 429-442).\<close>

definition sweepAll :: "Env \<Rightarrow> AtomsTable \<Rightarrow> AtomsTable" where
  "sweepAll env t =
     t\<lparr>partitions :=
         map (\<lambda>part. part\<lparr>atoms := sweepAll_loop env (atoms part) Enum_init\<rparr>) (partitions t)\<rparr>"

text \<open>
  \<^verbatim>\<open>AtomsTable::startIncrementalSweep\<close> (lines 509-537). \<open>newOk i\<close> says whether
  \<^verbatim>\<open>js_new<AtomSet>()\<close> for partition \<open>i\<close> finds memory. The first loop stops at the
  first failure; the second runs only then and clears every partition.
\<close>

fun startIncrementalSweep_alloc ::
  "(nat \<Rightarrow> bool) \<Rightarrow> nat \<Rightarrow> Partition list \<Rightarrow> bool \<times> Partition list" where
  "startIncrementalSweep_alloc newOk i [] = (True, [])"
| "startIncrementalSweep_alloc newOk i (part # ps) =
     (if \<not> newOk i then (False, part # ps)
      else (let (ok, ps') = startIncrementalSweep_alloc newOk (Suc i) ps
            in (ok, part\<lparr>atomsAddedWhileSweeping := Some []\<rparr> # ps')))"

definition startIncrementalSweep :: "(nat \<Rightarrow> bool) \<Rightarrow> AtomsTable \<Rightarrow> bool \<times> AtomsTable" where
  "startIncrementalSweep newOk t =
     (let (ok, ps) = startIncrementalSweep_alloc newOk 0 (partitions t)
      in if \<not> ok
         then (ok, t\<lparr>partitions := map (\<lambda>part. part\<lparr>atomsAddedWhileSweeping := None\<rparr>) ps\<rparr>)
         else (ok, t\<lparr>partitions := ps\<rparr>))"

text \<open>
  \<^verbatim>\<open>AtomsTable::mergeAtomsAddedWhileSweeping\<close> (lines 539-557). \<open>None\<close> is the end of
  the process: the dereference of a null secondary set, or
  \<^verbatim>\<open>oomUnsafe.crash\<close> when \<^verbatim>\<open>putNew\<close> fails.
\<close>

fun merge_loop :: "Env \<Rightarrow> AtomSet \<Rightarrow> AtomSet \<Rightarrow> AtomSet option" where
  "merge_loop env s [] = Some s"
| "merge_loop env s (r # rs) =
     (if \<not> putNewOk env (asPtrUnbarriered r) then None
      else merge_loop env (AtomSet_add s r) rs)"

definition mergeAtomsAddedWhileSweeping :: "Env \<Rightarrow> Partition \<Rightarrow> Partition option" where
  "mergeAtomsAddedWhileSweeping env part =
     (case atomsAddedWhileSweeping part of
        None \<Rightarrow> None
      | Some newAtoms \<Rightarrow>
          (case merge_loop env (atoms part) newAtoms of
             None \<Rightarrow> None
           | Some s \<Rightarrow> Some (part\<lparr>atoms := s, atomsAddedWhileSweeping := None\<rparr>)))"

subsection \<open>The sweep iterator\<close>

text \<open>
  \<^verbatim>\<open>AtomsTable::SweepIterator\<close> (lines 444-507). The iterator refers to the table it
  sweeps, so its operations take the table and return it. \<open>atomsIter\<close> is the
  \<^verbatim>\<open>Maybe<AtomSet::Enum>\<close> over the primary set of partition \<open>partitionIndex\<close>.
  A result \<open>None\<close> is the end of the process (a crash): an index past the array of
  partitions, the use of an absent \<open>atomsIter\<close>, or a crash of the merge. The
  \<^verbatim>\<open>MOZ_ASSERT\<close>s, which release builds do not compile, are not tests of the model.
\<close>

record SweepIterator =
  partitionIndex :: nat
  atomsIter :: "Enum option"

definition SweepIterator_empty :: "AtomsTable \<Rightarrow> SweepIterator \<Rightarrow> bool" where
  "SweepIterator_empty t it = (partitionIndex it = PartitionCount t)"

definition startSweepingPartition :: "AtomsTable \<Rightarrow> SweepIterator \<Rightarrow> SweepIterator" where
  "startSweepingPartition t it = it\<lparr>atomsIter := Some Enum_init\<rparr>"

definition finishSweepingPartition ::
  "Env \<Rightarrow> AtomsTable \<Rightarrow> SweepIterator \<Rightarrow> (AtomsTable \<times> SweepIterator) option" where
  "finishSweepingPartition env t it =
     (if \<not> partitionIndex it < PartitionCount t then None
      else (case mergeAtomsAddedWhileSweeping env (partitions t ! partitionIndex it) of
              None \<Rightarrow> None
            | Some part \<Rightarrow>
                Some (t\<lparr>partitions := (partitions t)[partitionIndex it := part]\<rparr>,
                      it\<lparr>atomsIter := None\<rparr>)))"

lemma finishSweepingPartition_frame:
  "finishSweepingPartition env t it = Some (t', it') \<Longrightarrow>
     PartitionCount t' = PartitionCount t \<and> partitionIndex it' = partitionIndex it"
  by (auto simp: finishSweepingPartition_def PartitionCount_def split: if_splits option.splits)

function settle ::
  "Env \<Rightarrow> AtomsTable \<Rightarrow> SweepIterator \<Rightarrow> (AtomsTable \<times> SweepIterator) option" where
  "settle env t it =
     (if \<not> partitionIndex it < PartitionCount t then None
      else (case atomsIter it of
              None \<Rightarrow> None
            | Some e \<Rightarrow>
                if \<not> Enum_empty (atoms (partitions t ! partitionIndex it)) e then Some (t, it)
                else (case finishSweepingPartition env t it of
                        None \<Rightarrow> None
                      | Some (t', it') \<Rightarrow>
                          (let it'' = it'\<lparr>partitionIndex := Suc (partitionIndex it')\<rparr>
                           in if SweepIterator_empty t' it'' then Some (t', it'')
                              else settle env t' (startSweepingPartition t' it'')))))"
  by pat_completeness auto
termination
proof (relation "measure (\<lambda>(env, t, it). PartitionCount t - partitionIndex it)")
  show "wf (measure (\<lambda>(env, t, it). PartitionCount t - partitionIndex it))"
    by simp
next
  fix env t it e x t' it' it''
  assume lt: "\<not> \<not> partitionIndex it < PartitionCount t"
    and fin: "finishSweepingPartition env t it = Some x"
    and x: "(t', it') = x"
    and it'': "it'' = it'\<lparr>partitionIndex := Suc (partitionIndex it')\<rparr>"
  from fin x have "finishSweepingPartition env t it = Some (t', it')"
    by simp
  from finishSweepingPartition_frame [OF this] lt it''
  show "((env, t', startSweepingPartition t' it''), env, t, it)
        \<in> measure (\<lambda>(env, t, it). PartitionCount t - partitionIndex it)"
    by (simp add: startSweepingPartition_def)
qed

text \<open>The constructor (lines 444-450).\<close>

definition SweepIterator_new ::
  "Env \<Rightarrow> AtomsTable \<Rightarrow> (AtomsTable \<times> SweepIterator) option" where
  "SweepIterator_new env t =
     settle env t (startSweepingPartition t \<lparr>partitionIndex = 0, atomsIter = None\<rparr>)"

text \<open>
  \<^verbatim>\<open>front\<close>, \<^verbatim>\<open>removeFront\<close> and \<^verbatim>\<open>popFront\<close> (lines 487-507). Reading the front
  of an iterator that stands on no entry is a crash.
\<close>

definition SweepIterator_front :: "AtomsTable \<Rightarrow> SweepIterator \<Rightarrow> JSAtomPtr option" where
  "SweepIterator_front t it =
     (if \<not> partitionIndex it < PartitionCount t then None
      else (case atomsIter it of
              None \<Rightarrow> None
            | Some e \<Rightarrow>
                if e_removed e \<or> \<not> e_cur e < length (atoms (partitions t ! partitionIndex it))
                then None
                else Some (asPtrUnbarriered
                             (Enum_front (atoms (partitions t ! partitionIndex it)) e))))"

definition SweepIterator_removeFront ::
  "AtomsTable \<Rightarrow> SweepIterator \<Rightarrow> (AtomsTable \<times> SweepIterator) option" where
  "SweepIterator_removeFront t it =
     (if \<not> partitionIndex it < PartitionCount t then None
      else (case atomsIter it of
              None \<Rightarrow> None
            | Some e \<Rightarrow>
                (let part = partitions t ! partitionIndex it;
                     (s, e') = Enum_removeFront (atoms part) e
                 in Some (t\<lparr>partitions := (partitions t)[partitionIndex it := part\<lparr>atoms := s\<rparr>]\<rparr>,
                          it\<lparr>atomsIter := Some e'\<rparr>))))"

definition SweepIterator_popFront ::
  "Env \<Rightarrow> AtomsTable \<Rightarrow> SweepIterator \<Rightarrow> (AtomsTable \<times> SweepIterator) option" where
  "SweepIterator_popFront env t it =
     (case atomsIter it of
        None \<Rightarrow> None
      | Some e \<Rightarrow> settle env t (it\<lparr>atomsIter := Some (Enum_popFront e)\<rparr>))"

text \<open>
  Modelled from the spec: \<^verbatim>\<open>SliceBudget\<close> (not among the sources) as the step budget
  the spec describes: \<^verbatim>\<open>step()\<close> takes one unit, and the budget is over once none is
  left.
\<close>

record SliceBudget =
  counter :: int

definition SliceBudget_step :: "SliceBudget \<Rightarrow> SliceBudget" where
  "SliceBudget_step b = b\<lparr>counter := counter b - 1\<rparr>"

definition isOverBudget :: "SliceBudget \<Rightarrow> bool" where
  "isOverBudget b = (counter b \<le> 0)"

text \<open>
  \<^verbatim>\<open>AtomsTable::sweepIncrementally\<close> (lines 559-581). The result holds the value
  returned (\<open>True\<close> when the sweep is done), the table, the iterator and the budget.
\<close>

function sweepIncrementally ::
  "Env \<Rightarrow> AtomsTable \<Rightarrow> SweepIterator \<Rightarrow> SliceBudget
     \<Rightarrow> (bool \<times> AtomsTable \<times> SweepIterator \<times> SliceBudget) option" where
  "sweepIncrementally env t atomsToSweep budget =
     (if SweepIterator_empty t atomsToSweep then Some (True, t, atomsToSweep, budget)
      else (let budget' = SliceBudget_step budget
            in if isOverBudget budget' then Some (False, t, atomsToSweep, budget')
               else (case SweepIterator_front t atomsToSweep of
                       None \<Rightarrow> None
                     | Some atom \<Rightarrow>
                         (case (if IsAboutToBeFinalized env atom
                                then SweepIterator_removeFront t atomsToSweep
                                else Some (t, atomsToSweep)) of
                            None \<Rightarrow> None
                          | Some (t1, it1) \<Rightarrow>
                              (case SweepIterator_popFront env t1 it1 of
                                 None \<Rightarrow> None
                               | Some (t2, it2) \<Rightarrow> sweepIncrementally env t2 it2 budget')))))"
  by pat_completeness auto
termination
  by (relation "measure (\<lambda>(env, t, it, b). nat (counter b))")
     (auto simp: SliceBudget_step_def isOverBudget_def)

text \<open>
  The recursive equations of the loops are unfolded by hand in the proofs.
\<close>

declare settle.simps [simp del] sweepIncrementally.simps [simp del] sweepAll_loop.simps [simp del]

subsection \<open>A caller of the incremental sweep\<close>

text \<open>A caller that runs slices of a sweep, one budget after the other, until one is done.\<close>

fun sweepSlices ::
  "Env \<Rightarrow> AtomsTable \<Rightarrow> SweepIterator \<Rightarrow> SliceBudget list
     \<Rightarrow> (bool \<times> AtomsTable \<times> SweepIterator) option" where
  "sweepSlices env t it [] = Some (False, t, it)"
| "sweepSlices env t it (b # bs) =
     (case sweepIncrementally env t it b of
        None \<Rightarrow> None
      | Some (res, t', it', b') \<Rightarrow>
          if res then Some (True, t', it') else sweepSlices env t' it' bs)"

subsection \<open>The runtime and atomization\<close>

datatype PinningBehavior = DoNotPinAtom | PinAtom

text \<open>
  What a failed call reports: \<^verbatim>\<open>ReportOutOfMemory\<close>, the allocation-overflow report
  of \<^verbatim>\<open>JSString::validateLength\<close>, or the end of the process (a null dereference or
  an index past the array of partitions).
\<close>

datatype error = OutOfMemory | AllocationOverflow | Crash

text \<open>
  Which of the allocations of one call find memory: \<^verbatim>\<open>NewStringCopyN\<close>, the
  \<^verbatim>\<open>add\<close> to a set of the table, the \<^verbatim>\<open>add\<close> to the zone's cache, and
  \<^verbatim>\<open>ensureLinear\<close> of a rope.
\<close>

record Alloc =
  newStringOk :: bool
  setAddOk :: bool
  cacheAddOk :: bool
  ensureLinearOk :: bool

record Zone =
  atomCache :: AtomSet

text \<open>
  The part of \<^verbatim>\<open>JSContext\<close> and \<^verbatim>\<open>JSRuntime\<close> the atom table reads and writes.
  Modelled from the spec: \<^verbatim>\<open>StaticStrings\<close> (not among the sources) is the small
  table of fixed contents, from the code units of a string to its static atom.
  \<open>permanentAtomsDuringInit\<close>, \<open>permanentAtoms\<close> and \<open>rt_atoms\<close> are the runtime's
  pointers \<^verbatim>\<open>permanentAtomsDuringInit_\<close>, \<^verbatim>\<open>permanentAtoms_\<close> and \<^verbatim>\<open>atoms_\<close>.
\<close>

record JSContext =
  store :: Heap
  staticStrings :: "(nat list \<times> JSAtomPtr) list"
  zone :: "Zone option"
  permanentAtomsDuringInit :: "AtomSet option"
  permanentAtoms :: "AtomSet option"
  rt_atoms :: "AtomsTable option"

definition StaticStrings_lookup :: "(nat list \<times> JSAtomPtr) list \<Rightarrow> Chars \<Rightarrow> JSAtomPtr option" where
  "StaticStrings_lookup tbl tbchars = map_of tbl (codeUnits tbchars)"

definition permanentAtomsPopulated :: "JSContext \<Rightarrow> bool" where
  "permanentAtomsPopulated cx = (permanentAtoms cx \<noteq> None)"

definition validateLength :: "Env \<Rightarrow> nat \<Rightarrow> bool" where
  "validateLength env n = (n \<le> MAX_LENGTH env)"

text \<open>\<^verbatim>\<open>zone->atomCache().add(*zonePtr, AtomStateEntry(atom, false))\<close>.\<close>

definition atomCache_add :: "JSContext \<Rightarrow> JSAtomPtr \<Rightarrow> JSContext" where
  "atomCache_add cx atom =
     cx\<lparr>zone := map_option
                   (\<lambda>z. z\<lparr>atomCache :=
                            AtomSet_add (atomCache z)
                              \<lparr>asPtrUnbarriered = atom, isPinned = False\<rparr>\<rparr>)
                   (zone cx)\<rparr>"

text \<open>
  \<^verbatim>\<open>AllocateNewAtom\<close> (lines 813-841). Modelled from the spec: \<^verbatim>\<open>NewStringCopyN\<close>
  gives the next cell of the store, holding the characters as they were passed.
\<close>

definition AllocateNewAtom ::
  "bool \<Rightarrow> Heap \<Rightarrow> Chars \<Rightarrow> PinningBehavior \<Rightarrow> nat option \<Rightarrow> Lookup
     \<Rightarrow> JSAtomPtr option \<times> Heap" where
  "AllocateNewAtom ok heap tbchars pin indexValue lookup =
     (if \<not> ok then (None, heap)
      else (let atom = \<lparr>a_chars = tbchars, a_hash = l_hash lookup, a_pinned = False,
                        a_permanent = False, a_index = None\<rparr>;
                atom1 = (if pin = PinAtom then atom\<lparr>a_pinned := True\<rparr> else atom);
                atom2 = (case indexValue of
                           Some v \<Rightarrow> atom1\<lparr>a_index := Some v\<rparr>
                         | None \<Rightarrow> atom1)
            in (Some (length heap), heap @ [atom2])))"

text \<open>
  The entry an \<^verbatim>\<open>AddPtr\<close> of \<^verbatim>\<open>atomizeAndCopyChars\<close> refers to lies in the primary
  or in the secondary set of the partition.
\<close>

datatype AddPtr = InAtoms nat | InAdded nat

definition AddPtr_entry :: "Partition \<Rightarrow> AddPtr \<Rightarrow> AtomStateEntry" where
  "AddPtr_entry part p =
     (case p of
        InAtoms k \<Rightarrow> atoms part ! k
      | InAdded k \<Rightarrow> the (atomsAddedWhileSweeping part) ! k)"

definition AddPtr_setPinned :: "Partition \<Rightarrow> AddPtr \<Rightarrow> Partition" where
  "AddPtr_setPinned part p =
     (case p of
        InAtoms k \<Rightarrow> part\<lparr>atoms := Entry_setPinned (atoms part) k\<rparr>
      | InAdded k \<Rightarrow>
          part\<lparr>atomsAddedWhileSweeping :=
                 map_option (\<lambda>s. Entry_setPinned s k) (atomsAddedWhileSweeping part)\<rparr>)"

text \<open>The lookup of \<^verbatim>\<open>AtomsTable::atomizeAndCopyChars\<close> (lines 713-734).\<close>

definition Partition_lookupForAdd :: "Env \<Rightarrow> Heap \<Rightarrow> Partition \<Rightarrow> Lookup \<Rightarrow> AddPtr option" where
  "Partition_lookupForAdd env heap part lookup =
     (case atomsAddedWhileSweeping part of
        None \<Rightarrow> map_option InAtoms (AtomSet_lookup heap (atoms part) lookup)
      | Some added \<Rightarrow>
          (case AtomSet_lookup heap added lookup of
             Some k \<Rightarrow> Some (InAdded k)
           | None \<Rightarrow>
               (case AtomSet_lookup heap (atoms part) lookup of
                  Some k2 \<Rightarrow>
                    if \<not> IsAboutToBeFinalized env (asPtrUnbarriered (atoms part ! k2))
                    then Some (InAtoms k2)
                    else None
                | None \<Rightarrow> None)))"

text \<open>
  \<^verbatim>\<open>addSet->add(p, AtomStateEntry(atom, bool(pin)))\<close> (lines 753-754): the secondary
  set when there is one, the primary set otherwise.
\<close>

definition Partition_add :: "Partition \<Rightarrow> AtomStateEntry \<Rightarrow> Partition" where
  "Partition_add part entry =
     (case atomsAddedWhileSweeping part of
        Some added \<Rightarrow> part\<lparr>atomsAddedWhileSweeping := Some (AtomSet_add added entry)\<rparr>
      | None \<Rightarrow> part\<lparr>atoms := AtomSet_add (atoms part) entry\<rparr>)"

text \<open>\<^verbatim>\<open>AtomsTable::atomizeAndCopyChars\<close> (lines 701-760).\<close>

definition AtomsTable_atomizeAndCopyChars ::
  "Env \<Rightarrow> Alloc \<Rightarrow> Heap \<Rightarrow> AtomsTable \<Rightarrow> Chars \<Rightarrow> PinningBehavior \<Rightarrow> nat option \<Rightarrow> Lookup
     \<Rightarrow> (error + JSAtomPtr) \<times> Heap \<times> AtomsTable" where
  "AtomsTable_atomizeAndCopyChars env al heap t tbchars pin indexValue lookup =
     (let i = getPartitionIndex env lookup in
      if \<not> i < PartitionCount t then (Inl Crash, heap, t)
      else (let part = partitions t ! i in
            case Partition_lookupForAdd env heap part lookup of
              Some p \<Rightarrow>
                (let atom = asPtrUnbarriered (AddPtr_entry part p) in
                 if pin = PinAtom \<and> \<not> a_pinned (heap ! atom)
                 then (Inr atom, heap[atom := (heap ! atom)\<lparr>a_pinned := True\<rparr>],
                       t\<lparr>partitions := (partitions t)[i := AddPtr_setPinned part p]\<rparr>)
                 else (Inr atom, heap, t))
            | None \<Rightarrow>
                (case AllocateNewAtom (newStringOk al) heap tbchars pin indexValue lookup of
                   (None, heap') \<Rightarrow> (Inl OutOfMemory, heap', t)
                 | (Some atom, heap') \<Rightarrow>
                     if \<not> setAddOk al then (Inl OutOfMemory, heap', t)
                     else (Inr atom, heap',
                           t\<lparr>partitions := (partitions t)
                                [i := Partition_add part
                                        \<lparr>asPtrUnbarriered = atom, isPinned = (pin = PinAtom)\<rparr>]\<rparr>))))"

text \<open>
  Modelled from the spec: \<^verbatim>\<open>JSAtom::morphIntoPermanentAtom\<close> (not among the sources)
  marks the atom permanent; a permanent atom is pinned, as \<^verbatim>\<open>TracePermanentAtoms\<close>
  asserts of every entry of the permanent set.
\<close>

definition morphIntoPermanentAtom :: "JSAtom \<Rightarrow> JSAtom" where
  "morphIntoPermanentAtom a = a\<lparr>a_permanent := True, a_pinned := True\<rparr>"

text \<open>
  \<^verbatim>\<open>PermanentlyAtomizeAndCopyChars\<close> (lines 770-811). \<open>zonePtr\<close> is the
  \<^verbatim>\<open>Maybe<AtomSet::AddPtr>\<close> of the caller; \<open>staging\<close> is the set the source
  calls \<^verbatim>\<open>atoms\<close>.
\<close>

definition PermanentlyAtomizeAndCopyChars ::
  "Env \<Rightarrow> Alloc \<Rightarrow> JSContext \<Rightarrow> nat option option \<Rightarrow> Chars \<Rightarrow> nat option \<Rightarrow> Lookup
     \<Rightarrow> (error + JSAtomPtr) \<times> JSContext" where
  "PermanentlyAtomizeAndCopyChars env al cx zonePtr tbchars indexValue lookup =
     (case permanentAtomsDuringInit cx of
        None \<Rightarrow> (Inl Crash, cx)
      | Some staging \<Rightarrow>
          (case AtomSet_lookup (store cx) staging lookup of
             Some k \<Rightarrow> (Inr (asPtrUnbarriered (staging ! k)), cx)
           | None \<Rightarrow>
               (case AllocateNewAtom (newStringOk al) (store cx) tbchars DoNotPinAtom
                       indexValue lookup of
                  (None, heap') \<Rightarrow> (Inl OutOfMemory, cx\<lparr>store := heap'\<rparr>)
                | (Some atom, heap') \<Rightarrow>
                    (let heap'' = heap'[atom := morphIntoPermanentAtom (heap' ! atom)] in
                     if \<not> setAddOk al then (Inl OutOfMemory, cx\<lparr>store := heap''\<rparr>)
                     else (let cx' = cx\<lparr>store := heap'',
                                        permanentAtomsDuringInit :=
                                          Some (AtomSet_add staging
                                                  \<lparr>asPtrUnbarriered = atom, isPinned = True\<rparr>)\<rparr>
                           in if zonePtr \<noteq> None \<and> \<not> cacheAddOk al then (Inl OutOfMemory, cx')
                              else if zonePtr \<noteq> None then (Inr atom, atomCache_add cx' atom)
                              else (Inr atom, cx'))))))"

text \<open>
  \<^verbatim>\<open>AtomizeAndCopyChars\<close> (lines 624-699). The marking of the atom in the zone's
  bitmap (\<^verbatim>\<open>inlinedMarkAtom\<close>) and the read barrier of \<^verbatim>\<open>asPtr\<close> belong to the
  collector and leave the table as it is.
\<close>

definition AtomizeAndCopyChars ::
  "Env \<Rightarrow> Alloc \<Rightarrow> JSContext \<Rightarrow> Chars \<Rightarrow> PinningBehavior \<Rightarrow> nat option
     \<Rightarrow> (error + JSAtomPtr) \<times> JSContext" where
  "AtomizeAndCopyChars env al cx tbchars pin indexValue =
     (case StaticStrings_lookup (staticStrings cx) tbchars of
        Some s \<Rightarrow> (Inr s, cx)
      | None \<Rightarrow>
          (let lookup = Lookup_chars env tbchars;
               zonePtr = (case zone cx of
                            Some z \<Rightarrow>
                              if pin = DoNotPinAtom
                              then Some (AtomSet_lookup (store cx) (atomCache z) lookup)
                              else None
                          | None \<Rightarrow> None)
           in case zonePtr of
                Some (Some k) \<Rightarrow> (Inr (asPtrUnbarriered (atomCache (the (zone cx)) ! k)), cx)
              | _ \<Rightarrow>
                  (case permanentAtoms cx of
                     None \<Rightarrow>
                       PermanentlyAtomizeAndCopyChars env al cx zonePtr tbchars indexValue lookup
                   | Some perm \<Rightarrow>
                       (case AtomSet_lookup (store cx) perm lookup of
                          Some pp \<Rightarrow>
                            (let atom = asPtrUnbarriered (perm ! pp) in
                             if zonePtr \<noteq> None \<and> \<not> cacheAddOk al then (Inl OutOfMemory, cx)
                             else if zonePtr \<noteq> None then (Inr atom, atomCache_add cx atom)
                             else (Inr atom, cx))
                        | None \<Rightarrow>
                            if \<not> validateLength env (charsLength tbchars)
                            then (Inl AllocationOverflow, cx)
                            else (case rt_atoms cx of
                                    None \<Rightarrow> (Inl Crash, cx)
                                  | Some t \<Rightarrow>
                                      (case AtomsTable_atomizeAndCopyChars env al (store cx) t
                                              tbchars pin indexValue lookup of
                                         (Inl e, heap', t') \<Rightarrow>
                                           (Inl e, cx\<lparr>store := heap', rt_atoms := Some t'\<rparr>)
                                       | (Inr atom, heap', t') \<Rightarrow>
                                           (let cx' = cx\<lparr>store := heap', rt_atoms := Some t'\<rparr>
                                            in if zonePtr \<noteq> None \<and> \<not> cacheAddOk al
                                               then (Inl OutOfMemory, cx')
                                               else if zonePtr \<noteq> None
                                                    then (Inr atom, atomCache_add cx' atom)
                                                    else (Inr atom, cx'))))))))"

text \<open>
  \<^verbatim>\<open>AtomsTable::pinExistingAtom\<close> (lines 873-893). Its four \<^verbatim>\<open>MOZ_ASSERT\<close>s are
  the contract of the function: \<open>None\<close> is a call that breaks one of them.
\<close>

definition pinExistingAtom ::
  "Env \<Rightarrow> Heap \<Rightarrow> AtomsTable \<Rightarrow> JSAtomPtr \<Rightarrow> (Heap \<times> AtomsTable) option" where
  "pinExistingAtom env heap t atom =
     (case Lookup_atom heap atom of
        None \<Rightarrow> None
      | Some lookup \<Rightarrow>
          if a_pinned (heap ! atom) then None
          else (let i = getPartitionIndex env lookup in
                if \<not> i < PartitionCount t then None
                else (let part = partitions t ! i;
                          p = (case AtomSet_lookup heap (atoms part) lookup of
                                 Some k \<Rightarrow> Some (InAtoms k)
                               | None \<Rightarrow>
                                   (case atomsAddedWhileSweeping part of
                                      Some added \<Rightarrow>
                                        map_option InAdded (AtomSet_lookup heap added lookup)
                                    | None \<Rightarrow> None))
                      in case p of
                           None \<Rightarrow> None
                         | Some r \<Rightarrow>
                             if asPtrUnbarriered (AddPtr_entry part r) \<noteq> atom then None
                             else Some (heap[atom := (heap ! atom)\<lparr>a_pinned := True\<rparr>],
                                        t\<lparr>partitions :=
                                            (partitions t)[i := AddPtr_setPinned part r]\<rparr>))))"

text \<open>
  A \<^verbatim>\<open>JSString\<close> as \<^verbatim>\<open>AtomizeString\<close> reads it: an atom, a linear string or a rope
  (given by the characters it flattens to), the last two with their cached index value.
\<close>

datatype JSString =
  AtomString JSAtomPtr
| LinearString Chars "nat option"
| RopeString Chars "nat option"

text \<open>\<^verbatim>\<open>js::AtomizeString\<close> (lines 843-871).\<close>

definition AtomizeString ::
  "Env \<Rightarrow> Alloc \<Rightarrow> JSContext \<Rightarrow> JSString \<Rightarrow> PinningBehavior
     \<Rightarrow> (error + JSAtomPtr) \<times> JSContext" where
  "AtomizeString env al cx str pin =
     (case str of
        AtomString atom \<Rightarrow>
          if \<not> atom < length (store cx) then (Inl Crash, cx)
          else if pin = PinAtom \<and> \<not> a_pinned (store cx ! atom)
          then (case rt_atoms cx of
                  None \<Rightarrow> (Inl Crash, cx)
                | Some t \<Rightarrow>
                    (case pinExistingAtom env (store cx) t atom of
                       None \<Rightarrow> (Inl Crash, cx)
                     | Some (heap', t') \<Rightarrow>
                         (Inr atom, cx\<lparr>store := heap', rt_atoms := Some t'\<rparr>)))
          else (Inr atom, cx)
      | LinearString cs indexValue \<Rightarrow> AtomizeAndCopyChars env al cx cs pin indexValue
      | RopeString cs indexValue \<Rightarrow>
          if \<not> ensureLinearOk al then (Inl OutOfMemory, cx)
          else AtomizeAndCopyChars env al cx cs pin indexValue)"

text \<open>\<^verbatim>\<open>js::Atomize\<close> and \<^verbatim>\<open>js::AtomizeChars\<close> (lines 895-911).\<close>

definition Atomize ::
  "Env \<Rightarrow> Alloc \<Rightarrow> JSContext \<Rightarrow> 8 word list \<Rightarrow> PinningBehavior \<Rightarrow> nat option
     \<Rightarrow> (error + JSAtomPtr) \<times> JSContext" where
  "Atomize env al cx bytes pin indexValue =
     AtomizeAndCopyChars env al cx (Latin1Chars bytes) pin indexValue"

definition AtomizeChars ::
  "Env \<Rightarrow> Alloc \<Rightarrow> JSContext \<Rightarrow> Chars \<Rightarrow> PinningBehavior \<Rightarrow> (error + JSAtomPtr) \<times> JSContext" where
  "AtomizeChars env al cx cs pin = AtomizeAndCopyChars env al cx cs pin None"

subsection \<open>A run of atomizations\<close>



subsection \<open>Predicates of the statements\<close>

text \<open>
  The hash of a list of code units given as numbers: what both overloads of
  \<open>HashString\<close> compute (lemma \<open>Lookup_chars_hash\<close>).
\<close>

definition hashUnits :: "Env \<Rightarrow> nat list \<Rightarrow> HashNumber" where
  "hashUnits env ns = foldl (\<lambda>hash n. AddToHash env hash (of_nat n)) 0 ns"

text \<open>
  \<open>heldIn part atom\<close>: an entry of the primary or of the secondary set of the
  partition holds the atom. \<open>pinnedIn part atom\<close>: such an entry holds it with the
  pinned bit set.
\<close>

definition pinnedIn :: "Partition \<Rightarrow> JSAtomPtr \<Rightarrow> bool" where
  "pinnedIn part atom =
     (\<lparr>asPtrUnbarriered = atom, isPinned = True\<rparr> \<in> set (atoms part)
      \<or> (case atomsAddedWhileSweeping part of
            None \<Rightarrow> False
          | Some added \<Rightarrow> \<lparr>asPtrUnbarriered = atom, isPinned = True\<rparr> \<in> set added))"

definition heldIn :: "Partition \<Rightarrow> JSAtomPtr \<Rightarrow> bool" where
  "heldIn part atom =
     (atom \<in> asPtrUnbarriered ` set (atoms part)
      \<or> (case atomsAddedWhileSweeping part of
            None \<Rightarrow> False
          | Some added \<Rightarrow> atom \<in> asPtrUnbarriered ` set added))"

text \<open>
  \<open>sweptTo env s s'\<close>: the set \<open>s'\<close> is what is left of \<open>s\<close> after entries were
  taken out, none of them an entry whose atom the collector does not find about to be
  finalized.
\<close>

definition sweptTo :: "Env \<Rightarrow> AtomSet \<Rightarrow> AtomSet \<Rightarrow> bool" where
  "sweptTo env s s' =
     (subseq s' s \<and> (\<forall>e \<in> set s. \<not> IsAboutToBeFinalized env (asPtrUnbarriered e) \<longrightarrow> e \<in> set s'))"

text \<open>
  \<open>partSwept env a b i part part'\<close> relates partition \<open>i\<close> before and after a piece of
  a sweep that moved the iterator from partition \<open>a\<close> to partition \<open>b\<close>. A partition
  behind \<open>a\<close> or ahead of \<open>b\<close> is as it was. Partition \<open>b\<close>, where the iterator stands,
  has its secondary set as it was and a swept primary set. A partition the iterator left
  (from \<open>a\<close> up to \<open>b\<close>, \<open>b\<close> excluded) has no secondary set any more, and its primary
  set is its swept primary set followed by the whole former secondary set: it was merged
  once, in one piece. \<open>sweepRel\<close> says so of every partition.
\<close>

definition partSwept :: "Env \<Rightarrow> nat \<Rightarrow> nat \<Rightarrow> nat \<Rightarrow> Partition \<Rightarrow> Partition \<Rightarrow> bool" where
  "partSwept env a b i part part' =
     (if i < a \<or> b < i then part' = part
      else if i = b
      then atomsAddedWhileSweeping part' = atomsAddedWhileSweeping part
           \<and> sweptTo env (atoms part) (atoms part')
      else atomsAddedWhileSweeping part' = None
           \<and> (\<exists>added kept. atomsAddedWhileSweeping part = Some added
                 \<and> sweptTo env (atoms part) kept \<and> atoms part' = kept @ added))"

definition sweepRel ::
  "Env \<Rightarrow> AtomsTable \<Rightarrow> SweepIterator \<Rightarrow> AtomsTable \<Rightarrow> SweepIterator \<Rightarrow> bool" where
  "sweepRel env t it t' it' =
     (PartitionCount t' = PartitionCount t \<and> partitionIndex it \<le> partitionIndex it'
      \<and> (\<forall>i < PartitionCount t.
            partSwept env (partitionIndex it) (partitionIndex it') i
              (partitions t ! i) (partitions t' ! i)))"

text \<open>
  \<open>sweptBehind\<close>: the partitions behind the iterator have no secondary set.
  \<open>sweepValid\<close>: the iterator is exhausted or stands on an entry of the primary set of
  its partition, and every partition from there on has a secondary set (what
  \<open>startIncrementalSweep\<close> and the constructor of the iterator establish).
\<close>

definition sweptBehind :: "AtomsTable \<Rightarrow> SweepIterator \<Rightarrow> bool" where
  "sweptBehind t it =
     (\<forall>i < PartitionCount t.
        i < partitionIndex it \<longrightarrow> atomsAddedWhileSweeping (partitions t ! i) = None)"

definition sweepValid :: "AtomsTable \<Rightarrow> SweepIterator \<Rightarrow> bool" where
  "sweepValid t it =
     (partitionIndex it \<le> PartitionCount t
      \<and> (partitionIndex it < PartitionCount t \<longrightarrow>
           (\<exists>e. atomsIter it = Some e \<and> \<not> e_removed e
                \<and> e_cur e < length (atoms (partitions t ! partitionIndex it))))
      \<and> (\<forall>i < PartitionCount t.
             partitionIndex it \<le> i \<longrightarrow> atomsAddedWhileSweeping (partitions t ! i) \<noteq> None))"

subsection \<open>The atom that characters resolve to\<close>

text \<open>
  The atom a lookup finds: in one set, in a partition (by \<open>Partition_lookupForAdd\<close>, so
  with the secondary set first and a dead atom of the primary set skipped during a sweep),
  and in the table.
\<close>

definition AtomSet_find :: "Heap \<Rightarrow> AtomSet \<Rightarrow> Lookup \<Rightarrow> JSAtomPtr option" where
  "AtomSet_find heap s l = map_option (\<lambda>k. asPtrUnbarriered (s ! k)) (AtomSet_lookup heap s l)"

definition Partition_find :: "Env \<Rightarrow> Heap \<Rightarrow> Partition \<Rightarrow> Lookup \<Rightarrow> JSAtomPtr option" where
  "Partition_find env heap part l =
     map_option (\<lambda>p. asPtrUnbarriered (AddPtr_entry part p)) (Partition_lookupForAdd env heap part l)"

text \<open>
  The store only grows, and the characters and the hash of an atom never change
  (pinning and \<open>morphIntoPermanentAtom\<close> change flags only).
\<close>

definition heapExt :: "Heap \<Rightarrow> Heap \<Rightarrow> bool" where
  "heapExt heap heap' =
     (length heap \<le> length heap'
      \<and> (\<forall>p < length heap. a_chars (heap' ! p) = a_chars (heap ! p)
                             \<and> a_hash (heap' ! p) = a_hash (heap ! p)))"

text \<open>Every entry of a set, of a partition, of the table points into the store.\<close>

definition setOk :: "Heap \<Rightarrow> AtomSet \<Rightarrow> bool" where
  "setOk heap s = (\<forall>e \<in> set s. asPtrUnbarriered e < length heap)"

definition partOk :: "Heap \<Rightarrow> Partition \<Rightarrow> bool" where
  "partOk heap part =
     (setOk heap (atoms part)
      \<and> (case atomsAddedWhileSweeping part of None \<Rightarrow> True | Some added \<Rightarrow> setOk heap added))"

definition tableOk :: "Heap \<Rightarrow> AtomsTable \<Rightarrow> bool" where
  "tableOk heap t = (\<forall>part \<in> set (partitions t). partOk heap part)"

definition AtomsTable_find :: "Env \<Rightarrow> Heap \<Rightarrow> AtomsTable \<Rightarrow> Lookup \<Rightarrow> JSAtomPtr option" where
  "AtomsTable_find env heap t l =
     (if getPartitionIndex env l < PartitionCount t
      then Partition_find env heap (partitions t ! getPartitionIndex env l) l
      else None)"

text \<open>
  The atom that the tables of the runtime hold for the characters \<open>cs\<close>: the lookups of
  \<open>AtomizeAndCopyChars\<close> in their order, without the zone's cache and without any change
  of the state. \<open>None\<close> when no table has an atom that the call would return.
\<close>

definition resolve :: "Env \<Rightarrow> JSContext \<Rightarrow> Chars \<Rightarrow> JSAtomPtr option" where
  "resolve env cx cs =
     (case StaticStrings_lookup (staticStrings cx) cs of
        Some s \<Rightarrow> Some s
      | None \<Rightarrow>
          (let l = Lookup_chars env cs in
           case permanentAtoms cx of
             None \<Rightarrow>
               (case permanentAtomsDuringInit cx of
                  None \<Rightarrow> None
                | Some staging \<Rightarrow> AtomSet_find (store cx) staging l)
           | Some perm \<Rightarrow>
               (case AtomSet_find (store cx) perm l of
                  Some a \<Rightarrow> Some a
                | None \<Rightarrow>
                    if \<not> validateLength env (charsLength cs) then None
                    else (case rt_atoms cx of
                            None \<Rightarrow> None
                          | Some t \<Rightarrow> AtomsTable_find env (store cx) t l))))"

text \<open>
  The runtime is consistent: a static string has the code units it is filed under, the
  entries of the sets point into the store, and an atom in the zone's cache is the atom
  the tables hold for its characters.
\<close>

definition staticOk :: "JSContext \<Rightarrow> bool" where
  "staticOk cx =
     (\<forall>(cu, p) \<in> set (staticStrings cx).
        p < length (store cx) \<and> codeUnits (a_chars (store cx ! p)) = cu)"

definition setsOk :: "JSContext \<Rightarrow> bool" where
  "setsOk cx =
     ((case permanentAtoms cx of None \<Rightarrow> True | Some perm \<Rightarrow> setOk (store cx) perm)
      \<and> (case permanentAtomsDuringInit cx of None \<Rightarrow> True | Some s \<Rightarrow> setOk (store cx) s)
      \<and> (case rt_atoms cx of None \<Rightarrow> True | Some t \<Rightarrow> tableOk (store cx) t))"

definition cacheOk :: "Env \<Rightarrow> JSContext \<Rightarrow> bool" where
  "cacheOk env cx =
     (case zone cx of
        None \<Rightarrow> True
      | Some z \<Rightarrow>
          (\<forall>e \<in> set (atomCache z).
             asPtrUnbarriered e < length (store cx)
             \<and> resolve env cx (a_chars (store cx ! asPtrUnbarriered e))
                 = Some (asPtrUnbarriered e)))"

definition atomsInv :: "Env \<Rightarrow> JSContext \<Rightarrow> bool" where
  "atomsInv env cx = (staticOk cx \<and> setsOk cx \<and> cacheOk env cx)"

text \<open>
  What a call of \<open>AtomizeAndCopyChars\<close> for the characters \<open>cs\<close> with result \<open>r\<close>
  may do to the runtime, as far as later lookups can tell.
\<close>

definition atomStep ::
  "Env \<Rightarrow> Chars \<Rightarrow> (error + JSAtomPtr) \<Rightarrow> JSContext \<Rightarrow> JSContext \<Rightarrow> bool" where
  "atomStep env cs r cx cx' =
     (heapExt (store cx) (store cx') \<and> staticOk cx' \<and> setsOk cx'
      \<and> (\<forall>ds a. resolve env cx ds = Some a \<longrightarrow> resolve env cx' ds = Some a)
      \<and> (\<forall>a. r = Inr a \<longrightarrow>
             resolve env cx' cs = Some a \<and> a < length (store cx')
             \<and> codeUnits (a_chars (store cx' ! a)) = codeUnits cs)
      \<and> (zone cx' = zone cx
           \<or> (\<exists>a z. r = Inr a \<and> zone cx = Some z
                 \<and> zone cx' = Some (z\<lparr>atomCache := atomCache z
                                      @ [\<lparr>asPtrUnbarriered = a, isPinned = False\<rparr>]\<rparr>))))"

text \<open>The last lines of each path of \<open>AtomizeAndCopyChars\<close>: the insertion into the cache.\<close>

definition cacheResult ::
  "Alloc \<Rightarrow> bool \<Rightarrow> JSAtomPtr \<Rightarrow> JSContext \<Rightarrow> (error + JSAtomPtr) \<times> JSContext" where
  "cacheResult al uc atom cx =
     (if uc \<and> \<not> cacheAddOk al then (Inl OutOfMemory, cx)
      else if uc then (Inr atom, atomCache_add cx atom)
      else (Inr atom, cx))"

text \<open>
  \<open>AtomizeAndCopyChars\<close> from the lookup in the permanent set on, with the insertion
  into the cache written as \<open>cacheResult\<close>.
\<close>

definition atomizeTail ::
  "Env \<Rightarrow> Alloc \<Rightarrow> JSContext \<Rightarrow> nat option option \<Rightarrow> Chars \<Rightarrow> PinningBehavior \<Rightarrow> nat option
     \<Rightarrow> (error + JSAtomPtr) \<times> JSContext" where
  "atomizeTail env al cx zonePtr cs pin iv =
     (case permanentAtoms cx of
        None \<Rightarrow> PermanentlyAtomizeAndCopyChars env al cx zonePtr cs iv (Lookup_chars env cs)
      | Some perm \<Rightarrow>
          (case AtomSet_lookup (store cx) perm (Lookup_chars env cs) of
             Some pp \<Rightarrow> cacheResult al (zonePtr \<noteq> None) (asPtrUnbarriered (perm ! pp)) cx
           | None \<Rightarrow>
               if \<not> validateLength env (charsLength cs) then (Inl AllocationOverflow, cx)
               else (case rt_atoms cx of
                       None \<Rightarrow> (Inl Crash, cx)
                     | Some t \<Rightarrow>
                         (case AtomsTable_atomizeAndCopyChars env al (store cx) t cs pin iv
                                 (Lookup_chars env cs) of
                            (Inl e, heap', t') \<Rightarrow>
                              (Inl e, cx\<lparr>store := heap', rt_atoms := Some t'\<rparr>)
                          | (Inr atom, heap', t') \<Rightarrow>
                              cacheResult al (zonePtr \<noteq> None) atom
                                (cx\<lparr>store := heap', rt_atoms := Some t'\<rparr>)))))"

subsection \<open>What a slice of the sweep leaves\<close>

text \<open>
  The entries of a set whose atom the collector does not report about to be finalized:
  what a sweep of the set keeps.
\<close>

definition liveEntries :: "Env \<Rightarrow> AtomSet \<Rightarrow> AtomSet" where
  "liveEntries env s = filter (\<lambda>x. \<not> IsAboutToBeFinalized env (asPtrUnbarriered x)) s"

text \<open>
  How many entries of partition \<open>i\<close> lie behind the iterator: the position of its
  \<^verbatim>\<open>Enum\<close> when it stands on partition \<open>i\<close>, and 0 for any other partition.
\<close>

definition sweepCut :: "SweepIterator \<Rightarrow> nat \<Rightarrow> nat" where
  "sweepCut it i =
     (if i = partitionIndex it
      then (case atomsIter it of None \<Rightarrow> 0 | Some e \<Rightarrow> e_cur e)
      else 0)"

text \<open>
  \<open>partExact env it it' i part part'\<close> relates partition \<open>i\<close> before and after a piece of
  a sweep that moved the iterator from \<open>it\<close> to \<open>it'\<close>. A partition behind \<open>it\<close> or
  ahead of \<open>it'\<close> is as it was. The partition \<open>it'\<close> stands on has its secondary set as
  it was; of its primary set, the entries behind \<open>it\<close> are as they were, the next \<open>m\<close>
  entries were examined and the live ones kept, the rest is untouched, and \<open>it'\<close> stands
  right after the entries kept. A partition the iterator left has no secondary set any
  more, and its primary set is the entries behind \<open>it\<close>, then the live ones of all the
  others, then the whole former secondary set. \<open>sweepExact\<close> says so of every partition.
\<close>

definition partExact ::
  "Env \<Rightarrow> SweepIterator \<Rightarrow> SweepIterator \<Rightarrow> nat \<Rightarrow> Partition \<Rightarrow> Partition \<Rightarrow> bool" where
  "partExact env it it' i part part' =
     (if i < partitionIndex it \<or> partitionIndex it' < i then part' = part
      else if i = partitionIndex it'
      then atomsAddedWhileSweeping part' = atomsAddedWhileSweeping part
           \<and> (\<exists>m. m \<le> length (drop (sweepCut it i) (atoms part))
                 \<and> atoms part' = take (sweepCut it i) (atoms part)
                      @ liveEntries env (take m (drop (sweepCut it i) (atoms part)))
                      @ drop m (drop (sweepCut it i) (atoms part))
                 \<and> sweepCut it' i = sweepCut it i
                      + length (liveEntries env (take m (drop (sweepCut it i) (atoms part)))))
      else atomsAddedWhileSweeping part' = None
           \<and> (\<exists>added. atomsAddedWhileSweeping part = Some added
                 \<and> atoms part' = take (sweepCut it i) (atoms part)
                      @ liveEntries env (drop (sweepCut it i) (atoms part)) @ added))"

definition sweepExact ::
  "Env \<Rightarrow> AtomsTable \<Rightarrow> SweepIterator \<Rightarrow> AtomsTable \<Rightarrow> SweepIterator \<Rightarrow> bool" where
  "sweepExact env t it t' it' =
     (PartitionCount t' = PartitionCount t \<and> partitionIndex it \<le> partitionIndex it'
      \<and> (\<forall>i < PartitionCount t.
            partExact env it it' i (partitions t ! i) (partitions t' ! i)))"

text \<open>
  The number of entries the iterator has still to examine: those of its partition from
  its position on and those of the partitions ahead (\<open>aheadSize\<close>).
\<close>

definition toSweep :: "AtomsTable \<Rightarrow> SweepIterator \<Rightarrow> nat" where
  "toSweep t it =
     sum_list (map (\<lambda>i. length (atoms (partitions t ! i)) - sweepCut it i)
                 [partitionIndex it ..< PartitionCount t])"

definition aheadSize :: "AtomsTable \<Rightarrow> nat \<Rightarrow> nat" where
  "aheadSize t k = sum_list (map (\<lambda>i. length (atoms (partitions t ! i))) [k ..< PartitionCount t])"

subsection \<open>The zone's cache in a call\<close>

text \<open>
  \<open>usesCache\<close>: the call has a zone and does not pin, so that \<^verbatim>\<open>zonePtr\<close> is engaged
  (lines 641-643). \<open>cacheMiss\<close>: the zone's cache is not asked, or has no entry for the
  characters.
\<close>

definition usesCache :: "JSContext \<Rightarrow> PinningBehavior \<Rightarrow> bool" where
  "usesCache cx pin = (zone cx \<noteq> None \<and> pin = DoNotPinAtom)"

definition cacheMiss :: "Env \<Rightarrow> JSContext \<Rightarrow> Chars \<Rightarrow> PinningBehavior \<Rightarrow> bool" where
  "cacheMiss env cx cs pin =
     (case zone cx of
        None \<Rightarrow> True
      | Some z \<Rightarrow>
          pin = PinAtom
          \<or> AtomSet_lookup (store cx) (atomCache z) (Lookup_chars env cs) = None)"

subsection \<open>A small runtime for concrete runs\<close>

text \<open>
  An environment with two partitions (the top bit of the hash selects one), a hash that
  adds the code units up, and a collector that finds the atom of cell 0 dead.
\<close>

definition exEnv :: Env where
  "exEnv = \<lparr>AddToHash = (\<lambda>hash v. hash + v), IsAboutToBeFinalized = (\<lambda>a. a = 0),
            MAX_LENGTH = 1000, PartitionShift = 1, putNewOk = (\<lambda>a. True)\<rparr>"

definition exAtomA :: JSAtom where
  "exAtomA = \<lparr>a_chars = Latin1Chars [97], a_hash = 97, a_pinned = False,
              a_permanent = False, a_index = None\<rparr>"

definition exEntry :: "JSAtomPtr \<Rightarrow> bool \<Rightarrow> AtomStateEntry" where
  "exEntry a b = \<lparr>asPtrUnbarriered = a, isPinned = b\<rparr>"

definition exAtomB :: JSAtom where
  "exAtomB = \<lparr>a_chars = Latin1Chars [98], a_hash = 98, a_pinned = False,
              a_permanent = False, a_index = None\<rparr>"

definition exHeapAB :: Heap where
  "exHeapAB = [exAtomA, exAtomB]"

definition exCx :: JSContext where
  "exCx = \<lparr>store = [exAtomA], staticStrings = [], zone = Some \<lparr>atomCache = []\<rparr>,
           permanentAtomsDuringInit = None, permanentAtoms = Some [],
           rt_atoms = Some \<lparr>partitions = [Partition_new, Partition_new]\<rparr>\<rparr>"

definition exAlloc :: Alloc where
  "exAlloc = \<lparr>newStringOk = True, setAddOk = True, cacheAddOk = True, ensureLinearOk = True\<rparr>"

definition exTable :: AtomsTable where
  "exTable = \<lparr>partitions = [\<lparr>atoms = [exEntry 0 False, exEntry 1 True], atomsAddedWhileSweeping = None\<rparr>,
                             Partition_new]\<rparr>"

definition exAtomC :: JSAtom where
  "exAtomC = \<lparr>a_chars = TwoByteChars [99], a_hash = 99, a_pinned = False,
              a_permanent = False, a_index = None\<rparr>"

definition exHeapABC :: Heap where
  "exHeapABC = [exAtomA, exAtomB, exAtomC]"

definition exSweeping :: AtomsTable where
  "exSweeping = \<lparr>partitions =
     [\<lparr>atoms = [exEntry 0 False, exEntry 1 False], atomsAddedWhileSweeping = Some [exEntry 2 False]\<rparr>,
      \<lparr>atoms = [], atomsAddedWhileSweeping = Some []\<rparr>]\<rparr>"

definition exHeapAP :: Heap where
  "exHeapAP = [exAtomA, exAtomB\<lparr>a_pinned := True\<rparr>]"

definition exTableA :: "bool \<Rightarrow> AtomsTable" where
  "exTableA b = \<lparr>partitions = [\<lparr>atoms = [exEntry 0 b], atomsAddedWhileSweeping = None\<rparr>,
                               Partition_new]\<rparr>"

definition exSweepingP :: AtomsTable where
  "exSweepingP = \<lparr>partitions =
     [\<lparr>atoms = [exEntry 0 False, exEntry 1 True], atomsAddedWhileSweeping = Some [exEntry 2 False]\<rparr>,
      \<lparr>atoms = [], atomsAddedWhileSweeping = Some []\<rparr>]\<rparr>"

definition exIter :: SweepIterator where
  "exIter = \<lparr>partitionIndex = 0, atomsIter = Some Enum_init\<rparr>"

definition exMid :: AtomsTable where
  "exMid = \<lparr>partitions =
     [\<lparr>atoms = [exEntry 1 True], atomsAddedWhileSweeping = Some [exEntry 2 False]\<rparr>,
      \<lparr>atoms = [], atomsAddedWhileSweeping = Some []\<rparr>]\<rparr>"

definition exIterEnd :: SweepIterator where
  "exIterEnd = \<lparr>partitionIndex = 2, atomsIter = None\<rparr>"

definition exSwept :: AtomsTable where
  "exSwept = \<lparr>partitions =
     [\<lparr>atoms = [exEntry 1 True, exEntry 2 False], atomsAddedWhileSweeping = None\<rparr>,
      \<lparr>atoms = [], atomsAddedWhileSweeping = None\<rparr>]\<rparr>"

definition exCxEmpty :: JSContext where
  "exCxEmpty = exCx\<lparr>store := []\<rparr>"






lemmas ex_defs = exCx_def exAlloc_def exEnv_def hashUnits_def exAtomA_def exEntry_def Partition_new_def

section \<open>Basic facts about lookups\<close>

lemma AtomSet_lookup_Some:
  "AtomSet_lookup heap s l = Some k \<Longrightarrow>
     k < length s \<and> match heap (s ! k) l \<and> (\<forall>j < k. \<not> match heap (s ! j) l)"
proof (induction s arbitrary: k)
  case Nil
  then show ?case by simp
next
  case (Cons e es)
  show ?case
  proof (cases "match heap e l")
    case True
    with Cons.prems show ?thesis by simp
  next
    case False
    with Cons.prems obtain k' where k': "AtomSet_lookup heap es l = Some k'" "k = Suc k'"
      by auto
    from Cons.IH [OF k'(1)] False k'(2) show ?thesis
      by (auto simp: less_Suc_eq_0_disj)
  qed
qed

lemma AtomSet_lookup_None:
  "(AtomSet_lookup heap s l = None) = (\<forall>e \<in> set s. \<not> match heap e l)"
  by (induction s) auto

lemma match_atom:
  "Lookup_atom heap atom = Some l \<Longrightarrow> match heap' e l = (asPtrUnbarriered e = atom)"
  by (auto simp: Lookup_atom_def match_def Let_def split: if_splits)

lemma Entry_setPinned_mem:
  "k < length s \<Longrightarrow> asPtrUnbarriered (s ! k) = a \<Longrightarrow>
     \<lparr>asPtrUnbarriered = a, isPinned = True\<rparr> \<in> set (Entry_setPinned s k)"
proof -
  assume k: "k < length s" and a: "asPtrUnbarriered (s ! k) = a"
  have "(s ! k)\<lparr>isPinned := True\<rparr> = \<lparr>asPtrUnbarriered = a, isPinned = True\<rparr>"
    using a by (cases "s ! k") simp
  moreover have "Entry_setPinned s k ! k = (s ! k)\<lparr>isPinned := True\<rparr>"
    using k by (simp add: Entry_setPinned_def)
  moreover have "k < length (Entry_setPinned s k)"
    using k by (simp add: Entry_setPinned_def)
  ultimately show ?thesis
    by (metis nth_mem)
qed

section \<open>Hashing and equality across encodings\<close>

lemma charsLength_codeUnits: "charsLength cs = length (codeUnits cs)"
  by (cases cs) simp_all

lemma HashString_hashUnits: "HashString env chars = hashUnits env (map unat chars)"
proof -
  have "foldl (\<lambda>hash c. AddToHash env hash (ucast c)) h chars
          = foldl (\<lambda>hash n. AddToHash env hash (of_nat n)) h (map unat chars)" for h
    by (induction chars arbitrary: h) simp_all
  then show ?thesis
    by (simp add: HashString_def hashUnits_def)
qed

lemma Lookup_chars_hash: "l_hash (Lookup_chars env cs) = hashUnits env (codeUnits cs)"
  by (cases cs) (simp_all add: Lookup_chars_def HashString_hashUnits)

lemma Lookup_chars_sel [simp]:
  "l_chars (Lookup_chars env cs) = cs" "l_atom (Lookup_chars env cs) = None"
  by (cases cs; simp add: Lookup_chars_def)+

lemma hashUnits_ex: "hashUnits exEnv ns = of_nat (sum_list ns)"
proof -
  have "foldl (\<lambda>hash n. hash + of_nat n) h ns = h + of_nat (sum_list ns)"
    for h :: HashNumber
    by (induction ns arbitrary: h) (simp_all add: add.assoc)
  then show ?thesis
    by (simp add: hashUnits_def exEnv_def)
qed

lemma match_chars_iff:
  "match heap entry (Lookup_chars env cs) =
     (asPtrUnbarriered entry < length heap
      \<and> a_hash (heap ! asPtrUnbarriered entry) = hashUnits env (codeUnits cs)
      \<and> codeUnits (a_chars (heap ! asPtrUnbarriered entry)) = codeUnits cs)"
proof (cases "asPtrUnbarriered entry < length heap")
  case False
  then show ?thesis by (simp add: match_def Let_def)
next
  case True
  have inj8: "\<And>xs ys :: 8 word list. (map unat xs = map unat ys) = (xs = ys)"
    by (simp add: inj_map_eq_map)
  have inj16: "\<And>xs ys :: 16 word list. (map unat xs = map unat ys) = (xs = ys)"
    by (simp add: inj_map_eq_map)
  have len: "\<And>xs ys. map unat xs = map unat ys \<Longrightarrow> length xs = length ys"
    by (metis length_map)
  show ?thesis
    using True
    by (cases "a_chars (heap ! asPtrUnbarriered entry)"; cases cs)
       (auto simp: match_def Let_def Lookup_chars_hash ArrayEqual_def EqualChars_def inj8 inj16
             dest: len)
qed

section \<open>Pinning and the zone's cache\<close>

text \<open>
  C9. A call that asks for a pinned atom does not use the zone's cache: whatever the zone
  is, the call gives what it gives with no zone at all, and hands the zone back as it
  was. The cache is neither read nor written.
\<close>

theorem atomize_pin_bypasses_cache:
  "AtomizeAndCopyChars env al (cx\<lparr>zone := z\<rparr>) cs PinAtom iv =
     (let (r, cx') = AtomizeAndCopyChars env al (cx\<lparr>zone := None\<rparr>) cs PinAtom iv
      in (r, cx'\<lparr>zone := z\<rparr>))"
  by (auto simp: AtomizeAndCopyChars_def Let_def PermanentlyAtomizeAndCopyChars_def
        split: option.splits prod.splits sum.splits)

section \<open>A failed insertion into the zone's cache\<close>

text \<open>
  C7. When the string is in neither the static strings nor the cache, the call does not
  pin, the caller has a zone and the insertion into its cache finds no memory, the call
  reports \<open>OutOfMemory\<close> although the atom was resolved: after a hit of the permanent
  set; after the partition found or created the atom (the table keeps what the partition
  did); and after the bootstrap path created the atom (the staging set keeps its entry).
  With the permanent set populated the call returns no atom at all.
\<close>

theorem zone_cache_failure_fails_call:
  "StaticStrings_lookup (staticStrings cx) cs = None \<and> zone cx = Some z
   \<and> AtomSet_lookup (store cx) (atomCache z) (Lookup_chars env cs) = None
   \<and> \<not> cacheAddOk al \<longrightarrow>
     (permanentAtoms cx = Some perm
        \<and> AtomSet_lookup (store cx) perm (Lookup_chars env cs) = Some pp \<longrightarrow>
      AtomizeAndCopyChars env al cx cs DoNotPinAtom iv = (Inl OutOfMemory, cx))
     \<and> (permanentAtoms cx = Some perm
        \<and> AtomSet_lookup (store cx) perm (Lookup_chars env cs) = None
        \<and> validateLength env (charsLength cs) \<and> rt_atoms cx = Some t
        \<and> AtomsTable_atomizeAndCopyChars env al (store cx) t cs DoNotPinAtom iv
             (Lookup_chars env cs) = (Inr atom, heap', t') \<longrightarrow>
      AtomizeAndCopyChars env al cx cs DoNotPinAtom iv
        = (Inl OutOfMemory, cx\<lparr>store := heap', rt_atoms := Some t'\<rparr>))
     \<and> (permanentAtoms cx = None \<and> permanentAtomsDuringInit cx = Some staging
        \<and> AtomSet_lookup (store cx) staging (Lookup_chars env cs) = None
        \<and> newStringOk al \<and> setAddOk al \<longrightarrow>
      fst (AtomizeAndCopyChars env al cx cs DoNotPinAtom iv) = Inl OutOfMemory
      \<and> permanentAtomsDuringInit (snd (AtomizeAndCopyChars env al cx cs DoNotPinAtom iv))
          = Some (staging @ [\<lparr>asPtrUnbarriered = length (store cx), isPinned = True\<rparr>]))
     \<and> (permanentAtoms cx = Some perm \<longrightarrow>
          (\<forall>a. fst (AtomizeAndCopyChars env al cx cs DoNotPinAtom iv) \<noteq> Inr a))"
  by (auto simp: AtomizeAndCopyChars_def Let_def PermanentlyAtomizeAndCopyChars_def
        AllocateNewAtom_def AtomSet_add_def
        split: option.splits prod.splits sum.splits)

theorem zone_cache_failure_fails_call_witness:
  "StaticStrings_lookup (staticStrings exCx) (Latin1Chars [97]) = None
   \<and> \<not> cacheAddOk (exAlloc\<lparr>cacheAddOk := False\<rparr>)
   \<and> AtomSet_lookup (store exCx) [exEntry 0 True] (Lookup_chars exEnv (Latin1Chars [97])) = Some 0
   \<and> AtomizeAndCopyChars exEnv (exAlloc\<lparr>cacheAddOk := False\<rparr>)
        (exCx\<lparr>permanentAtoms := Some [exEntry 0 True]\<rparr>) (Latin1Chars [97]) DoNotPinAtom None
      = (Inl OutOfMemory, exCx\<lparr>permanentAtoms := Some [exEntry 0 True]\<rparr>)
   \<and> AtomsTable_atomizeAndCopyChars exEnv (exAlloc\<lparr>cacheAddOk := False\<rparr>) (store exCx)
        \<lparr>partitions = [Partition_new, Partition_new]\<rparr> (Latin1Chars [98]) DoNotPinAtom None
        (Lookup_chars exEnv (Latin1Chars [98]))
      = (Inr 1, exHeapAB,
         \<lparr>partitions = [\<lparr>atoms = [exEntry 1 False], atomsAddedWhileSweeping = None\<rparr>,
                         Partition_new]\<rparr>)
   \<and> AtomizeAndCopyChars exEnv (exAlloc\<lparr>cacheAddOk := False\<rparr>) exCx (Latin1Chars [98])
        DoNotPinAtom None
      = (Inl OutOfMemory,
         exCx\<lparr>store := exHeapAB,
              rt_atoms := Some \<lparr>partitions =
                 [\<lparr>atoms = [exEntry 1 False], atomsAddedWhileSweeping = None\<rparr>,
                  Partition_new]\<rparr>\<rparr>)
   \<and> fst (AtomizeAndCopyChars exEnv (exAlloc\<lparr>cacheAddOk := False\<rparr>)
        (exCx\<lparr>permanentAtoms := None, permanentAtomsDuringInit := Some []\<rparr>) (Latin1Chars [98])
        DoNotPinAtom None) = Inl OutOfMemory
   \<and> permanentAtomsDuringInit (snd (AtomizeAndCopyChars exEnv (exAlloc\<lparr>cacheAddOk := False\<rparr>)
        (exCx\<lparr>permanentAtoms := None, permanentAtomsDuringInit := Some []\<rparr>) (Latin1Chars [98])
        DoNotPinAtom None)) = Some [exEntry 1 True]"
proof -
  let ?al = "exAlloc\<lparr>cacheAddOk := False\<rparr>"
  have ns: "StaticStrings_lookup (staticStrings exCx) cs = None" for cs
    by (simp add: StaticStrings_lookup_def exCx_def)
  have nc: "\<not> cacheAddOk ?al"
    by simp
  have look: "AtomSet_lookup (store exCx) [exEntry 0 True] (Lookup_chars exEnv (Latin1Chars [97])) = Some 0"
    by (simp add: match_chars_iff ex_defs)
  have idx: "getPartitionIndex exEnv (Lookup_chars exEnv (Latin1Chars [98])) = 0"
    by (simp add: getPartitionIndex_def Lookup_chars_hash exEnv_def hashUnits_def drop_bit_eq_div)
  have shard: "AtomsTable_atomizeAndCopyChars exEnv ?al (store exCx)
        \<lparr>partitions = [Partition_new, Partition_new]\<rparr> (Latin1Chars [98]) DoNotPinAtom None
        (Lookup_chars exEnv (Latin1Chars [98]))
      = (Inr 1, exHeapAB,
         \<lparr>partitions = [\<lparr>atoms = [exEntry 1 False], atomsAddedWhileSweeping = None\<rparr>,
                         Partition_new]\<rparr>)"
    unfolding AtomsTable_atomizeAndCopyChars_def idx Let_def
    by (simp add: PartitionCount_def Partition_lookupForAdd_def AllocateNewAtom_def
          Partition_add_def AtomSet_add_def exHeapAB_def exAtomB_def ex_defs Lookup_chars_hash)
  note i = zone_cache_failure_fails_call
    [of "exCx\<lparr>permanentAtoms := Some [exEntry 0 True]\<rparr>" "Latin1Chars [97]"
        "\<lparr>atomCache = []\<rparr>" exEnv ?al "[exEntry 0 True]" 0 None]
  note ii = zone_cache_failure_fails_call
    [of exCx "Latin1Chars [98]" "\<lparr>atomCache = []\<rparr>" exEnv ?al "[]" _ None
        "\<lparr>partitions = [Partition_new, Partition_new]\<rparr>" 1 exHeapAB
        "\<lparr>partitions = [\<lparr>atoms = [exEntry 1 False], atomsAddedWhileSweeping = None\<rparr>,
                         Partition_new]\<rparr>"]
  note iii = zone_cache_failure_fails_call
    [of "exCx\<lparr>permanentAtoms := None, permanentAtomsDuringInit := Some []\<rparr>" "Latin1Chars [98]"
        "\<lparr>atomCache = []\<rparr>" exEnv ?al _ _ None _ _ _ _ "[]"]
  have r1: "AtomizeAndCopyChars exEnv ?al
        (exCx\<lparr>permanentAtoms := Some [exEntry 0 True]\<rparr>) (Latin1Chars [97]) DoNotPinAtom None
      = (Inl OutOfMemory, exCx\<lparr>permanentAtoms := Some [exEntry 0 True]\<rparr>)"
    using i ns look by (simp add: exCx_def StaticStrings_lookup_def)
  have r2: "AtomizeAndCopyChars exEnv ?al exCx (Latin1Chars [98]) DoNotPinAtom None
      = (Inl OutOfMemory,
         exCx\<lparr>store := exHeapAB,
              rt_atoms := Some \<lparr>partitions =
                 [\<lparr>atoms = [exEntry 1 False], atomsAddedWhileSweeping = None\<rparr>,
                  Partition_new]\<rparr>\<rparr>)"
    using ii ns shard by (simp add: exCx_def validateLength_def exEnv_def hashUnits_def)
  have r3: "fst (AtomizeAndCopyChars exEnv ?al
        (exCx\<lparr>permanentAtoms := None, permanentAtomsDuringInit := Some []\<rparr>) (Latin1Chars [98])
        DoNotPinAtom None) = Inl OutOfMemory
   \<and> permanentAtomsDuringInit (snd (AtomizeAndCopyChars exEnv ?al
        (exCx\<lparr>permanentAtoms := None, permanentAtomsDuringInit := Some []\<rparr>) (Latin1Chars [98])
        DoNotPinAtom None)) = Some [exEntry 1 True]"
    using iii by (simp add: ex_defs StaticStrings_lookup_def)
  show ?thesis
    using ns nc look r1 shard r2 r3 by simp
qed

section \<open>Starting an incremental sweep\<close>

lemma startIncrementalSweep_alloc_ok:
  "\<forall>j < length ps. newOk (i + j) \<Longrightarrow>
     startIncrementalSweep_alloc newOk i ps
       = (True, map (\<lambda>part. part\<lparr>atomsAddedWhileSweeping := Some []\<rparr>) ps)"
proof (induction ps arbitrary: i)
  case Nil
  then show ?case by simp
next
  case (Cons part ps)
  from Cons.prems have "newOk i"
    by force
  moreover from Cons.prems have "\<forall>j < length ps. newOk (Suc i + j)"
    by force
  ultimately show ?case
    using Cons.IH [of "Suc i"] by simp
qed

lemma startIncrementalSweep_alloc_fail:
  "\<not> (\<forall>j < length ps. newOk (i + j)) \<Longrightarrow>
     fst (startIncrementalSweep_alloc newOk i ps) = False
     \<and> map (\<lambda>part. part\<lparr>atomsAddedWhileSweeping := None\<rparr>)
           (snd (startIncrementalSweep_alloc newOk i ps))
         = map (\<lambda>part. part\<lparr>atomsAddedWhileSweeping := None\<rparr>) ps"
proof (induction ps arbitrary: i)
  case Nil
  then show ?case by simp
next
  case (Cons part ps)
  show ?case
  proof (cases "newOk i")
    case False
    then show ?thesis by simp
  next
    case True
    with Cons.prems have "\<not> (\<forall>j < length ps. newOk (Suc i + j))"
      by (auto simp: less_Suc_eq_0_disj)
    from Cons.IH [OF this] True show ?thesis
      by (simp add: split_beta)
  qed
qed

text \<open>
  C5. Called on a table whose partitions have no secondary set (what the function
  asserts of each partition it reaches), \<open>startIncrementalSweep\<close> either gives every
  partition an empty secondary set and returns true, when every allocation succeeds, or
  returns false with the table exactly as it was, when one allocation fails.
\<close>

theorem startIncrementalSweep_all_or_nothing:
  "\<forall>part \<in> set (partitions t). atomsAddedWhileSweeping part = None \<Longrightarrow>
     startIncrementalSweep newOk t
       = (if \<forall>i < PartitionCount t. newOk i
          then (True, t\<lparr>partitions :=
                         map (\<lambda>part. part\<lparr>atomsAddedWhileSweeping := Some []\<rparr>) (partitions t)\<rparr>)
          else (False, t))"
proof (cases "\<forall>i < PartitionCount t. newOk i")
  case True
  then have "\<forall>j < length (partitions t). newOk (0 + j)"
    by (simp add: PartitionCount_def)
  from startIncrementalSweep_alloc_ok [OF this] True show ?thesis
    by (simp add: startIncrementalSweep_def)
next
  case False
  then have "\<not> (\<forall>j < length (partitions t). newOk (0 + j))"
    by (simp add: PartitionCount_def)
  note f = startIncrementalSweep_alloc_fail [OF this]
  assume pre: "\<forall>part \<in> set (partitions t). atomsAddedWhileSweeping part = None"
  then have "map (\<lambda>part. part\<lparr>atomsAddedWhileSweeping := None\<rparr>) (partitions t) = partitions t"
    by (simp add: map_idI)
  with f False show ?thesis
    by (simp add: startIncrementalSweep_def split_beta)
qed

theorem startIncrementalSweep_all_or_nothing_witness:
  "map atomsAddedWhileSweeping (partitions exTable) = [None, None]
   \<and> startIncrementalSweep (\<lambda>i. i \<noteq> 1) exTable = (False, exTable)
   \<and> startIncrementalSweep (\<lambda>i. True) exTable
       = (True, \<lparr>partitions =
            [\<lparr>atoms = [exEntry 0 False, exEntry 1 True], atomsAddedWhileSweeping = Some []\<rparr>,
             \<lparr>atoms = [], atomsAddedWhileSweeping = Some []\<rparr>]\<rparr>)"
proof -
  have pre: "\<forall>part \<in> set (partitions exTable). atomsAddedWhileSweeping part = None"
    by (simp add: exTable_def Partition_new_def)
  have n: "PartitionCount exTable = Suc (Suc 0)"
    by (simp add: PartitionCount_def exTable_def)
  have "\<not> (\<forall>i < PartitionCount exTable. i \<noteq> 1)"
    unfolding n by auto
  with startIncrementalSweep_all_or_nothing [OF pre, of "\<lambda>i. i \<noteq> 1"]
  have a: "startIncrementalSweep (\<lambda>i. i \<noteq> 1) exTable = (False, exTable)"
    by simp
  from startIncrementalSweep_all_or_nothing [OF pre, of "\<lambda>i. True"]
  have b: "startIncrementalSweep (\<lambda>i. True) exTable
       = (True, \<lparr>partitions =
            [\<lparr>atoms = [exEntry 0 False, exEntry 1 True], atomsAddedWhileSweeping = Some []\<rparr>,
             \<lparr>atoms = [], atomsAddedWhileSweeping = Some []\<rparr>]\<rparr>)"
    by (simp add: exTable_def Partition_new_def)
  have "map atomsAddedWhileSweeping (partitions exTable) = [None, None]"
    by (simp add: exTable_def Partition_new_def)
  with a b show ?thesis by blast
qed

section \<open>Lookup in a partition, in and out of a sweep\<close>

text \<open>
  C3. In the partition the hash selects: while the partition has a secondary set, a hit
  there is returned first; failing that, a hit of the primary set is returned when the
  collector does not find its atom about to be finalized; and when both fail (the
  primary set has no match, or its match is about to be finalized) the new atom's entry
  goes to the end of the secondary set. With no secondary set a miss puts the entry into
  the primary set.
\<close>

theorem atomize_lookup_during_sweep:
  "getPartitionIndex env lookup = i \<and> i < PartitionCount t \<and> partitions t ! i = part \<longrightarrow>
     (atomsAddedWhileSweeping part = Some added \<and> AtomSet_lookup heap added lookup = Some k \<longrightarrow>
        fst (AtomsTable_atomizeAndCopyChars env al heap t cs pin iv lookup)
          = Inr (asPtrUnbarriered (added ! k)))
     \<and> (atomsAddedWhileSweeping part = Some added \<and> AtomSet_lookup heap added lookup = None
          \<and> AtomSet_lookup heap (atoms part) lookup = Some j
          \<and> \<not> IsAboutToBeFinalized env (asPtrUnbarriered (atoms part ! j)) \<longrightarrow>
        fst (AtomsTable_atomizeAndCopyChars env al heap t cs pin iv lookup)
          = Inr (asPtrUnbarriered (atoms part ! j)))
     \<and> (atomsAddedWhileSweeping part = Some added \<and> AtomSet_lookup heap added lookup = None
          \<and> (AtomSet_lookup heap (atoms part) lookup = None
              \<or> (\<exists>j. AtomSet_lookup heap (atoms part) lookup = Some j
                    \<and> IsAboutToBeFinalized env (asPtrUnbarriered (atoms part ! j))))
          \<and> newStringOk al \<and> setAddOk al \<longrightarrow>
        fst (AtomsTable_atomizeAndCopyChars env al heap t cs pin iv lookup) = Inr (length heap)
        \<and> partitions (snd (snd (AtomsTable_atomizeAndCopyChars env al heap t cs pin iv lookup)))
            = (partitions t)
                [i := part\<lparr>atomsAddedWhileSweeping :=
                          Some (added @ [\<lparr>asPtrUnbarriered = length heap,
                                           isPinned = (pin = PinAtom)\<rparr>])\<rparr>])
     \<and> (atomsAddedWhileSweeping part = None \<and> AtomSet_lookup heap (atoms part) lookup = None
          \<and> newStringOk al \<and> setAddOk al \<longrightarrow>
        fst (AtomsTable_atomizeAndCopyChars env al heap t cs pin iv lookup) = Inr (length heap)
        \<and> partitions (snd (snd (AtomsTable_atomizeAndCopyChars env al heap t cs pin iv lookup)))
            = (partitions t)
                [i := part\<lparr>atoms := atoms part @ [\<lparr>asPtrUnbarriered = length heap,
                                                     isPinned = (pin = PinAtom)\<rparr>]\<rparr>])"
  by (auto simp: AtomsTable_atomizeAndCopyChars_def Let_def Partition_lookupForAdd_def
        AddPtr_entry_def AllocateNewAtom_def Partition_add_def AtomSet_add_def
        split: option.splits)

lemma ex_index:
  "getPartitionIndex exEnv (Lookup_chars exEnv (Latin1Chars [97])) = 0"
  "getPartitionIndex exEnv (Lookup_chars exEnv (Latin1Chars [98])) = 0"
  "getPartitionIndex exEnv (Lookup_chars exEnv (Latin1Chars [99])) = 0"
  "getPartitionIndex exEnv (Lookup_chars exEnv (Latin1Chars [100])) = 0"
  by (simp_all add: getPartitionIndex_def Lookup_chars_hash exEnv_def hashUnits_def drop_bit_eq_div)

lemma ex_lookup_ABC:
  "AtomSet_lookup exHeapABC [exEntry 2 False] (Lookup_chars exEnv (Latin1Chars [99])) = Some 0"
  "AtomSet_lookup exHeapABC [exEntry 2 False] (Lookup_chars exEnv (Latin1Chars [98])) = None"
  "AtomSet_lookup exHeapABC [exEntry 2 False] (Lookup_chars exEnv (Latin1Chars [97])) = None"
  "AtomSet_lookup exHeapABC [exEntry 0 False, exEntry 1 False]
     (Lookup_chars exEnv (Latin1Chars [98])) = Some 1"
  "AtomSet_lookup exHeapABC [exEntry 0 False, exEntry 1 False]
     (Lookup_chars exEnv (Latin1Chars [97])) = Some 0"
  by (simp_all add: match_chars_iff exHeapABC_def exAtomA_def exAtomB_def exAtomC_def
        exEntry_def exEnv_def hashUnits_def)

lemma ex_lookup_AB:
  "AtomSet_lookup exHeapAB [exEntry 0 False, exEntry 1 True]
     (Lookup_chars exEnv (Latin1Chars [100])) = None"
  by (simp_all add: match_chars_iff exHeapAB_def exAtomA_def exAtomB_def exEntry_def exEnv_def hashUnits_def)

theorem atomize_lookup_during_sweep_witness:
  "fst (AtomsTable_atomizeAndCopyChars exEnv exAlloc exHeapABC exSweeping (Latin1Chars [99])
          DoNotPinAtom None (Lookup_chars exEnv (Latin1Chars [99]))) = Inr 2
   \<and> fst (AtomsTable_atomizeAndCopyChars exEnv exAlloc exHeapABC exSweeping (Latin1Chars [98])
          DoNotPinAtom None (Lookup_chars exEnv (Latin1Chars [98]))) = Inr 1
   \<and> IsAboutToBeFinalized exEnv 0
   \<and> fst (AtomsTable_atomizeAndCopyChars exEnv exAlloc exHeapABC exSweeping (Latin1Chars [97])
          DoNotPinAtom None (Lookup_chars exEnv (Latin1Chars [97]))) = Inr 3
   \<and> partitions (snd (snd (AtomsTable_atomizeAndCopyChars exEnv exAlloc exHeapABC exSweeping
          (Latin1Chars [97]) DoNotPinAtom None (Lookup_chars exEnv (Latin1Chars [97])))))
       = [\<lparr>atoms = [exEntry 0 False, exEntry 1 False],
           atomsAddedWhileSweeping = Some [exEntry 2 False, exEntry 3 False]\<rparr>,
          \<lparr>atoms = [], atomsAddedWhileSweeping = Some []\<rparr>]
   \<and> fst (AtomsTable_atomizeAndCopyChars exEnv exAlloc exHeapAB exTable (Latin1Chars [100])
          PinAtom None (Lookup_chars exEnv (Latin1Chars [100]))) = Inr 2
   \<and> partitions (snd (snd (AtomsTable_atomizeAndCopyChars exEnv exAlloc exHeapAB exTable
          (Latin1Chars [100]) PinAtom None (Lookup_chars exEnv (Latin1Chars [100])))))
       = [\<lparr>atoms = [exEntry 0 False, exEntry 1 True, exEntry 2 True],
           atomsAddedWhileSweeping = None\<rparr>,
          Partition_new]"
proof -
  let ?part = "\<lparr>atoms = [exEntry 0 False, exEntry 1 False],
                atomsAddedWhileSweeping = Some [exEntry 2 False]\<rparr>"
  let ?part' = "\<lparr>atoms = [exEntry 0 False, exEntry 1 True], atomsAddedWhileSweeping = None\<rparr>"
  have p: "partitions exSweeping ! 0 = ?part" "0 < PartitionCount exSweeping"
    "partitions exTable ! 0 = ?part'" "0 < PartitionCount exTable"
    by (simp_all add: exSweeping_def exTable_def PartitionCount_def)
  have dead: "IsAboutToBeFinalized exEnv 0" "\<not> IsAboutToBeFinalized exEnv 1"
    by (simp_all add: exEnv_def hashUnits_def)
  have ok: "newStringOk exAlloc" "setAddOk exAlloc"
    by (simp_all add: exAlloc_def)
  note c1 = atomize_lookup_during_sweep
    [where env = exEnv and t = exSweeping and i = 0 and part = ?part and heap = exHeapABC
       and added = "[exEntry 2 False]" and al = exAlloc and pin = DoNotPinAtom and iv = None
       and lookup = "Lookup_chars exEnv (Latin1Chars [99])" and k = 0
       and cs = "Latin1Chars [99]"]
  note c2 = atomize_lookup_during_sweep
    [where env = exEnv and t = exSweeping and i = 0 and part = ?part and heap = exHeapABC
       and added = "[exEntry 2 False]" and al = exAlloc and pin = DoNotPinAtom and iv = None
       and lookup = "Lookup_chars exEnv (Latin1Chars [98])" and j = 1
       and cs = "Latin1Chars [98]"]
  note c3 = atomize_lookup_during_sweep
    [where env = exEnv and t = exSweeping and i = 0 and part = ?part and heap = exHeapABC
       and added = "[exEntry 2 False]" and al = exAlloc and pin = DoNotPinAtom and iv = None
       and lookup = "Lookup_chars exEnv (Latin1Chars [97])"
       and cs = "Latin1Chars [97]"]
  note c4 = atomize_lookup_during_sweep
    [where env = exEnv and t = exTable and i = 0 and part = ?part' and heap = exHeapAB
       and al = exAlloc and pin = PinAtom and iv = None
       and lookup = "Lookup_chars exEnv (Latin1Chars [100])" and cs = "Latin1Chars [100]"]
  have r1: "fst (AtomsTable_atomizeAndCopyChars exEnv exAlloc exHeapABC exSweeping (Latin1Chars [99])
          DoNotPinAtom None (Lookup_chars exEnv (Latin1Chars [99]))) = Inr 2"
    using c1 p ex_index ex_lookup_ABC by (simp add: exEntry_def)
  have r2: "fst (AtomsTable_atomizeAndCopyChars exEnv exAlloc exHeapABC exSweeping (Latin1Chars [98])
          DoNotPinAtom None (Lookup_chars exEnv (Latin1Chars [98]))) = Inr 1"
    using c2 p ex_index ex_lookup_ABC dead by (simp add: exEntry_def)
  have r3: "fst (AtomsTable_atomizeAndCopyChars exEnv exAlloc exHeapABC exSweeping (Latin1Chars [97])
          DoNotPinAtom None (Lookup_chars exEnv (Latin1Chars [97]))) = Inr 3
   \<and> partitions (snd (snd (AtomsTable_atomizeAndCopyChars exEnv exAlloc exHeapABC exSweeping
          (Latin1Chars [97]) DoNotPinAtom None (Lookup_chars exEnv (Latin1Chars [97])))))
       = [\<lparr>atoms = [exEntry 0 False, exEntry 1 False],
           atomsAddedWhileSweeping = Some [exEntry 2 False, exEntry 3 False]\<rparr>,
          \<lparr>atoms = [], atomsAddedWhileSweeping = Some []\<rparr>]"
    using c3 p ex_index ex_lookup_ABC dead ok
    by (simp add: exEntry_def exHeapABC_def exSweeping_def)
  have r4: "fst (AtomsTable_atomizeAndCopyChars exEnv exAlloc exHeapAB exTable (Latin1Chars [100])
          PinAtom None (Lookup_chars exEnv (Latin1Chars [100]))) = Inr 2
   \<and> partitions (snd (snd (AtomsTable_atomizeAndCopyChars exEnv exAlloc exHeapAB exTable
          (Latin1Chars [100]) PinAtom None (Lookup_chars exEnv (Latin1Chars [100])))))
       = [\<lparr>atoms = [exEntry 0 False, exEntry 1 True, exEntry 2 True],
           atomsAddedWhileSweeping = None\<rparr>,
          Partition_new]"
    using c4 p ex_index ex_lookup_AB ok
    by (simp add: exEntry_def exHeapAB_def exTable_def)
  from r1 r2 dead(1) r3 r4 show ?thesis
    by blast
qed


section \<open>Pinning an existing atom\<close>

lemma pinExistingAtom_ok:
  assumes a: "atom < length heap" and np: "\<not> a_pinned (heap ! atom)"
    and l: "Lookup_atom heap atom = Some lookup"
    and i: "getPartitionIndex env lookup < PartitionCount t"
    and h: "heldIn (partitions t ! getPartitionIndex env lookup) atom"
  shows "\<exists>heap' t'. pinExistingAtom env heap t atom = Some (heap', t')
           \<and> a_pinned (heap' ! atom)
           \<and> pinnedIn (partitions t' ! getPartitionIndex env lookup) atom"
proof -
  let ?i = "getPartitionIndex env lookup"
  let ?part = "partitions t ! ?i"
  have m: "\<And>h e. match h e lookup = (asPtrUnbarriered e = atom)"
    using match_atom [OF l] by simp
  have il: "?i < length (partitions t)"
    using i by (simp add: PartitionCount_def)
  show ?thesis
  proof (cases "AtomSet_lookup heap (atoms ?part) lookup")
    case (Some k)
    from AtomSet_lookup_Some [OF Some] m
    have k: "k < length (atoms ?part)" "asPtrUnbarriered (atoms ?part ! k) = atom"
      by auto
    from Entry_setPinned_mem [OF k]
    have "pinnedIn (AddPtr_setPinned ?part (InAtoms k)) atom"
      by (simp add: pinnedIn_def AddPtr_setPinned_def)
    then show ?thesis
      using a np l i il Some k
      by (simp add: pinExistingAtom_def Let_def AddPtr_entry_def)
  next
    case None
    then have "atom \<notin> asPtrUnbarriered ` set (atoms ?part)"
      using m by (auto simp: AtomSet_lookup_None)
    with h obtain added where added: "atomsAddedWhileSweeping ?part = Some added"
      and mem: "atom \<in> asPtrUnbarriered ` set added"
      by (auto simp: heldIn_def split: option.splits)
    from mem m have "AtomSet_lookup heap added lookup \<noteq> None"
      by (auto simp: AtomSet_lookup_None)
    then obtain k where look: "AtomSet_lookup heap added lookup = Some k"
      by auto
    from AtomSet_lookup_Some [OF look] m
    have k: "k < length added" "asPtrUnbarriered (added ! k) = atom"
      by auto
    from Entry_setPinned_mem [OF k] added
    have "pinnedIn (AddPtr_setPinned ?part (InAdded k)) atom"
      by (simp add: pinnedIn_def AddPtr_setPinned_def)
    then show ?thesis
      using a np l i il None added look k
      by (simp add: pinExistingAtom_def Let_def AddPtr_entry_def)
  qed
qed

text \<open>
  C10. \<open>pinExistingAtom\<close> called on an atom that is already pinned breaks its assertion;
  \<open>AtomizeString\<close> does not call it then: for a string that is a pinned atom (a
  permanent atom is pinned) it returns that atom and the state as it was. Called on an
  atom that is not pinned and that an entry of the primary or secondary set of its
  partition holds, \<open>pinExistingAtom\<close> passes its assertions, and afterwards the atom's
  pinned flag is set and the partition holds the atom in an entry whose pinned bit is
  set; \<open>AtomizeString\<close> with \<open>PinAtom\<close> then returns the atom with that state.
\<close>

theorem pinExistingAtom_contract:
  "(atom < length heap \<and> a_pinned (heap ! atom) \<longrightarrow> pinExistingAtom env heap t atom = None)
   \<and> (atom < length (store cx) \<and> a_pinned (store cx ! atom) \<longrightarrow>
        AtomizeString env al cx (AtomString atom) pin = (Inr atom, cx))
   \<and> (atom < length heap \<and> \<not> a_pinned (heap ! atom)
        \<and> Lookup_atom heap atom = Some lookup
        \<and> getPartitionIndex env lookup < PartitionCount t
        \<and> heldIn (partitions t ! getPartitionIndex env lookup) atom \<longrightarrow>
        (\<exists>heap' t'. pinExistingAtom env heap t atom = Some (heap', t')
           \<and> a_pinned (heap' ! atom)
           \<and> pinnedIn (partitions t' ! getPartitionIndex env lookup) atom
           \<and> (store cx = heap \<and> rt_atoms cx = Some t \<longrightarrow>
                AtomizeString env al cx (AtomString atom) PinAtom
                  = (Inr atom, cx\<lparr>store := heap', rt_atoms := Some t'\<rparr>))))"
proof (intro conjI impI)
  assume "atom < length heap \<and> a_pinned (heap ! atom)"
  then show "pinExistingAtom env heap t atom = None"
    by (simp add: pinExistingAtom_def Lookup_atom_def)
next
  assume "atom < length (store cx) \<and> a_pinned (store cx ! atom)"
  then show "AtomizeString env al cx (AtomString atom) pin = (Inr atom, cx)"
    by (simp add: AtomizeString_def)
next
  assume pre: "atom < length heap \<and> \<not> a_pinned (heap ! atom)
        \<and> Lookup_atom heap atom = Some lookup
        \<and> getPartitionIndex env lookup < PartitionCount t
        \<and> heldIn (partitions t ! getPartitionIndex env lookup) atom"
  then obtain heap' t' where r: "pinExistingAtom env heap t atom = Some (heap', t')"
      "a_pinned (heap' ! atom)" "pinnedIn (partitions t' ! getPartitionIndex env lookup) atom"
    using pinExistingAtom_ok [of atom heap lookup env t] by blast
  have "store cx = heap \<and> rt_atoms cx = Some t \<longrightarrow>
          AtomizeString env al cx (AtomString atom) PinAtom
            = (Inr atom, cx\<lparr>store := heap', rt_atoms := Some t'\<rparr>)"
    using pre r(1) by (auto simp: AtomizeString_def)
  with r show "\<exists>heap' t'. pinExistingAtom env heap t atom = Some (heap', t')
           \<and> a_pinned (heap' ! atom)
           \<and> pinnedIn (partitions t' ! getPartitionIndex env lookup) atom
           \<and> (store cx = heap \<and> rt_atoms cx = Some t \<longrightarrow>
                AtomizeString env al cx (AtomString atom) PinAtom
                  = (Inr atom, cx\<lparr>store := heap', rt_atoms := Some t'\<rparr>))"
    by blast
qed

theorem pinExistingAtom_contract_witness:
  "pinExistingAtom exEnv exHeapAP exTable 1 = None
   \<and> AtomizeString exEnv exAlloc (exCx\<lparr>store := exHeapAP, rt_atoms := Some exTable\<rparr>)
        (AtomString 1) PinAtom
      = (Inr 1, exCx\<lparr>store := exHeapAP, rt_atoms := Some exTable\<rparr>)
   \<and> heldIn (partitions exTable ! 0) 0
   \<and> (\<exists>heap' t'. pinExistingAtom exEnv exHeapAP exTable 0 = Some (heap', t')
         \<and> a_pinned (heap' ! 0) \<and> pinnedIn (partitions t' ! 0) 0
         \<and> AtomizeString exEnv exAlloc (exCx\<lparr>store := exHeapAP, rt_atoms := Some exTable\<rparr>)
              (AtomString 0) PinAtom
            = (Inr 0, exCx\<lparr>store := heap', rt_atoms := Some t'\<rparr>))"
proof -
  let ?cx = "exCx\<lparr>store := exHeapAP, rt_atoms := Some exTable\<rparr>"
  let ?l = "\<lparr>l_chars = Latin1Chars [97], l_atom = Some 0, l_hash = 97\<rparr>"
  have l: "Lookup_atom exHeapAP 0 = Some ?l"
    by (simp add: Lookup_atom_def exHeapAP_def exAtomA_def)
  have i: "getPartitionIndex exEnv ?l = 0"
    by (simp add: getPartitionIndex_def exEnv_def hashUnits_def drop_bit_eq_div)
  have h: "heldIn (partitions exTable ! 0) 0"
    by (simp add: heldIn_def exTable_def exEntry_def)
  have p: "1 < length exHeapAP \<and> a_pinned (exHeapAP ! 1)"
    "0 < length exHeapAP \<and> \<not> a_pinned (exHeapAP ! 0)"
    "0 < PartitionCount exTable"
    by (simp_all add: exHeapAP_def exAtomA_def exAtomB_def PartitionCount_def exTable_def)
  note a = pinExistingAtom_contract
    [where atom = 1 and heap = exHeapAP and env = exEnv and t = exTable and cx = ?cx
       and al = exAlloc and pin = PinAtom]
  note c = pinExistingAtom_contract
    [where atom = 0 and heap = exHeapAP and env = exEnv and t = exTable and cx = ?cx
       and al = exAlloc and pin = PinAtom and lookup = ?l]
  have r1: "pinExistingAtom exEnv exHeapAP exTable 1 = None"
    using a p by blast
  have r2: "AtomizeString exEnv exAlloc ?cx (AtomString 1) PinAtom = (Inr 1, ?cx)"
    using a p by simp
  have r3: "\<exists>heap' t'. pinExistingAtom exEnv exHeapAP exTable 0 = Some (heap', t')
         \<and> a_pinned (heap' ! 0) \<and> pinnedIn (partitions t' ! 0) 0
         \<and> AtomizeString exEnv exAlloc ?cx (AtomString 0) PinAtom
            = (Inr 0, exCx\<lparr>store := heap', rt_atoms := Some t'\<rparr>)"
    using c p l i h by simp
  from r1 r2 h r3 show ?thesis
    by blast
qed


section \<open>Sweeping\<close>

subsection \<open>What one piece of a sweep does to each partition\<close>

lemma sweptTo_refl: "sweptTo env s s"
  by (simp add: sweptTo_def)

lemma sweptTo_trans: "sweptTo env s s1 \<Longrightarrow> sweptTo env s1 s2 \<Longrightarrow> sweptTo env s s2"
  unfolding sweptTo_def
  by (meson subseq_order.trans list_emb_set)

lemma sweptTo_remove:
  assumes "k < length s" and "IsAboutToBeFinalized env (asPtrUnbarriered (s ! k))"
  shows "sweptTo env s (take k s @ drop (Suc k) s)"
proof -
  have s: "s = take k s @ (s ! k) # drop (Suc k) s"
    using assms(1) by (simp add: id_take_nth_drop)
  have "subseq (take k s @ drop (Suc k) s) (take k s @ (s ! k) # drop (Suc k) s)"
    by (rule list_emb_append_mono) auto
  with s have sub: "subseq (take k s @ drop (Suc k) s) s"
    by simp
  have "e \<in> set (take k s @ drop (Suc k) s)"
    if "e \<in> set s" and "\<not> IsAboutToBeFinalized env (asPtrUnbarriered e)" for e
  proof -
    from that(1) s have "e \<in> set (take k s) \<or> e = s ! k \<or> e \<in> set (drop (Suc k) s)"
      by (metis Un_iff set_ConsD set_append)
    with that(2) assms(2) show ?thesis
      by auto
  qed
  with sub show ?thesis
    by (auto simp: sweptTo_def)
qed

lemma partSwept_refl: "partSwept env a a i part part"
  by (simp add: partSwept_def sweptTo_refl)

lemma partSwept_trans:
  assumes le: "a \<le> b" "b \<le> c"
    and p: "partSwept env a b i part part1" and q: "partSwept env b c i part1 part2"
  shows "partSwept env a c i part part2"
proof -
  consider "i < a" | "c < i" | "a \<le> i" "i < b" | "i = b" "b < c" | "i = b" "b = c"
    | "b < i" "i < c" | "b < i" "i = c"
    using le by linarith
  then show ?thesis
  proof cases
    case 1
    with p q le show ?thesis by (simp add: partSwept_def)
  next
    case 2
    with p q le show ?thesis by (simp add: partSwept_def)
  next
    case 3
    with p q le show ?thesis by (auto simp: partSwept_def)
  next
    case 4
    with p q le show ?thesis by (auto simp: partSwept_def intro: sweptTo_trans)
  next
    case 5
    with p q le show ?thesis by (auto simp: partSwept_def intro: sweptTo_trans)
  next
    case 6
    with p q le show ?thesis by (auto simp: partSwept_def)
  next
    case 7
    with p q le show ?thesis by (auto simp: partSwept_def)
  qed
qed

lemma sweepRel_refl: "sweepRel env t it t it"
  by (simp add: sweepRel_def partSwept_refl)

lemma sweepRel_trans:
  assumes a: "sweepRel env t it t1 it1" and b: "sweepRel env t1 it1 t2 it2"
  shows "sweepRel env t it t2 it2"
  using a b unfolding sweepRel_def
  by (auto intro: partSwept_trans)

lemma sweepRel_index:
  "partitionIndex it0 = partitionIndex it \<Longrightarrow> partitionIndex it0' = partitionIndex it' \<Longrightarrow>
     sweepRel env t it t' it' \<Longrightarrow> sweepRel env t it0 t' it0'"
  by (simp add: sweepRel_def)

lemma merge_loop_eq:
  "merge_loop env s rs
     = (if list_all (\<lambda>r. putNewOk env (asPtrUnbarriered r)) rs then Some (s @ rs) else None)"
  by (induction rs arbitrary: s) (simp_all add: AtomSet_add_def)

lemma mergeAtomsAddedWhileSweeping_Some:
  "mergeAtomsAddedWhileSweeping env part = Some part' \<Longrightarrow>
     \<exists>added. atomsAddedWhileSweeping part = Some added
       \<and> part' = part\<lparr>atoms := atoms part @ added, atomsAddedWhileSweeping := None\<rparr>"
  by (auto simp: mergeAtomsAddedWhileSweeping_def merge_loop_eq split: option.splits if_splits)

lemma finishSweepingPartition_rel:
  assumes "finishSweepingPartition env t it = Some (t', it')"
  shows "sweepRel env t it t' (it'\<lparr>partitionIndex := Suc (partitionIndex it')\<rparr>)"
proof -
  from assms have lt: "partitionIndex it < PartitionCount t"
    by (auto simp: finishSweepingPartition_def split: if_splits)
  from assms lt obtain part where
    m: "mergeAtomsAddedWhileSweeping env (partitions t ! partitionIndex it) = Some part"
    and t': "t' = t\<lparr>partitions := (partitions t)[partitionIndex it := part]\<rparr>"
    and it': "it' = it\<lparr>atomsIter := None\<rparr>"
    by (auto simp: finishSweepingPartition_def split: option.splits)
  from mergeAtomsAddedWhileSweeping_Some [OF m] obtain added where
    added: "atomsAddedWhileSweeping (partitions t ! partitionIndex it) = Some added"
    and part: "part = (partitions t ! partitionIndex it)
                 \<lparr>atoms := atoms (partitions t ! partitionIndex it) @ added,
                  atomsAddedWhileSweeping := None\<rparr>"
    by blast
  have "sweptTo env (atoms (partitions t ! partitionIndex it))
          (atoms (partitions t ! partitionIndex it))"
    by (rule sweptTo_refl)
  then have "partSwept env (partitionIndex it) (Suc (partitionIndex it)) i
          (partitions t ! i) ((partitions t)[partitionIndex it := part] ! i)"
    if "i < PartitionCount t" for i
    using that lt added part
    by (cases "i = partitionIndex it") (auto simp: partSwept_def PartitionCount_def sweptTo_refl)
  then show ?thesis
    unfolding sweepRel_def t' it'
    by (simp add: PartitionCount_def)
qed

lemma settle_rel:
  "settle env t it = Some (t', it') \<Longrightarrow> sweepRel env t it t' it'"
proof (induction env t it arbitrary: t' it' rule: settle.induct)
  case (1 env t it)
  note eq = settle.simps [of env t it]
  from "1.prems" have lt: "partitionIndex it < PartitionCount t"
    by (auto simp: eq split: if_splits)
  from "1.prems" lt obtain e where e: "atomsIter it = Some e"
    by (auto simp: eq split: option.splits)
  show ?case
  proof (cases "Enum_empty (atoms (partitions t ! partitionIndex it)) e")
    case False
    with "1.prems" lt e have "t' = t" "it' = it"
      by (simp_all add: eq)
    then show ?thesis
      by (simp add: sweepRel_refl)
  next
    case True
    from "1.prems" lt e True obtain t1 it1 where
      fin: "finishSweepingPartition env t it = Some (t1, it1)"
      by (auto simp: eq split: option.splits)
    let ?it2 = "it1\<lparr>partitionIndex := Suc (partitionIndex it1)\<rparr>"
    note r1 = finishSweepingPartition_rel [OF fin]
    show ?thesis
    proof (cases "SweepIterator_empty t1 ?it2")
      case emp: True
      with "1.prems" lt e True fin have "t' = t1" "it' = ?it2"
        by (simp_all add: eq Let_def)
      with r1 show ?thesis by simp
    next
      case False
      with "1.prems" lt e True fin
      have rec: "settle env t1 (startSweepingPartition t1 ?it2) = Some (t', it')"
        by (simp add: eq Let_def)
      have "sweepRel env t1 (startSweepingPartition t1 ?it2) t' it'"
        using "1.IH" [of e "(t1, it1)" t1 it1 ?it2 t' it'] lt e True fin False rec
        by simp
      then have "sweepRel env t1 ?it2 t' it'"
        by (rule sweepRel_index [rotated 2]) (simp_all add: startSweepingPartition_def)
      with r1 show ?thesis
        by (rule sweepRel_trans)
    qed
  qed
qed

lemma removeFront_rel:
  assumes f: "SweepIterator_front t it = Some atom"
    and d: "IsAboutToBeFinalized env atom"
    and r: "SweepIterator_removeFront t it = Some (t1, it1)"
  shows "sweepRel env t it t1 it1"
proof -
  from f have lt: "partitionIndex it < PartitionCount t"
    by (auto simp: SweepIterator_front_def split: if_splits)
  from f lt obtain e where e: "atomsIter it = Some e"
    and cur: "e_cur e < length (atoms (partitions t ! partitionIndex it))"
    and atom: "atom = asPtrUnbarriered (atoms (partitions t ! partitionIndex it) ! e_cur e)"
    by (auto simp: SweepIterator_front_def Enum_front_def split: option.splits if_splits)
  let ?part = "partitions t ! partitionIndex it"
  from r lt e have t1: "t1 = t\<lparr>partitions := (partitions t)
        [partitionIndex it := ?part\<lparr>atoms := take (e_cur e) (atoms ?part)
                                            @ drop (Suc (e_cur e)) (atoms ?part)\<rparr>]\<rparr>"
    and it1: "partitionIndex it1 = partitionIndex it"
    by (auto simp: SweepIterator_removeFront_def Enum_removeFront_def Let_def)
  from sweptTo_remove [OF cur] d atom
  have "sweptTo env (atoms ?part) (take (e_cur e) (atoms ?part) @ drop (Suc (e_cur e)) (atoms ?part))"
    by simp
  then have "partSwept env (partitionIndex it) (partitionIndex it) i (partitions t ! i)
          ((partitions t)[partitionIndex it := ?part\<lparr>atoms := take (e_cur e) (atoms ?part)
                                            @ drop (Suc (e_cur e)) (atoms ?part)\<rparr>] ! i)"
    if "i < PartitionCount t" for i
    using that lt
    by (cases "i = partitionIndex it") (auto simp: partSwept_def PartitionCount_def sweptTo_refl)
  then show ?thesis
    unfolding sweepRel_def t1 it1
    by (simp add: PartitionCount_def)
qed

lemma popFront_rel:
  assumes "SweepIterator_popFront env t it = Some (t', it')"
  shows "sweepRel env t it t' it'"
proof -
  from assms obtain e where
    "settle env t (it\<lparr>atomsIter := Some (Enum_popFront e)\<rparr>) = Some (t', it')"
    by (auto simp: SweepIterator_popFront_def split: option.splits)
  from settle_rel [OF this] show ?thesis
    by (rule sweepRel_index [rotated 2]) simp_all
qed

lemma sweepIncrementally_rel:
  "sweepIncrementally env t it b = Some (res, t', it', b') \<Longrightarrow>
     sweepRel env t it t' it'
     \<and> (if res then SweepIterator_empty t' it'
         else isOverBudget b' \<and> \<not> SweepIterator_empty t' it')"
proof (induction env t it b arbitrary: res t' it' b' rule: sweepIncrementally.induct)
  case (1 env t it b)
  note eq = sweepIncrementally.simps [of env t it b]
  show ?case
  proof (cases "SweepIterator_empty t it")
    case True
    with "1.prems" show ?thesis
      by (auto simp: eq sweepRel_refl)
  next
    case ne: False
    show ?thesis
    proof (cases "isOverBudget (SliceBudget_step b)")
      case True
      with "1.prems" ne show ?thesis
        by (auto simp: eq sweepRel_refl Let_def)
    next
      case nb: False
      from "1.prems" ne nb obtain atom where f: "SweepIterator_front t it = Some atom"
        by (auto simp: eq Let_def split: option.splits)
      let ?r = "if IsAboutToBeFinalized env atom then SweepIterator_removeFront t it
                else Some (t, it)"
      from "1.prems" ne nb f obtain t1 it1 where r: "?r = Some (t1, it1)"
        by (cases ?r) (auto simp: eq Let_def)
      from "1.prems" ne nb f r obtain t2 it2 where
        p: "SweepIterator_popFront env t1 it1 = Some (t2, it2)"
        by (cases "SweepIterator_popFront env t1 it1") (auto simp: eq Let_def)
      from "1.prems" ne nb f r p
      have rec: "sweepIncrementally env t2 it2 (SliceBudget_step b) = Some (res, t', it', b')"
        by (simp add: eq Let_def)
      have r1: "sweepRel env t it t1 it1"
        using r removeFront_rel [OF f] by (auto simp: sweepRel_refl split: if_splits)
      have r2: "sweepRel env t1 it1 t2 it2"
        by (rule popFront_rel [OF p])
      note ih = "1.IH" [OF ne refl nb f r refl p refl rec]
      from sweepRel_trans [OF sweepRel_trans [OF r1 r2]] ih show ?thesis
        by blast
    qed
  qed
qed

lemma sweepSlices_rel:
  "sweepSlices env t it bs = Some (res, t', it') \<Longrightarrow> sweepRel env t it t' it'"
proof (induction bs arbitrary: t it)
  case Nil
  then show ?case by (simp add: sweepRel_refl)
next
  case (Cons b bs)
  from Cons.prems obtain r t1 it1 b1 where
    s: "sweepIncrementally env t it b = Some (r, t1, it1, b1)"
    by (auto split: option.splits)
  note r1 = sweepIncrementally_rel [OF s, THEN conjunct1]
  show ?case
  proof (cases r)
    case True
    with Cons.prems s have "t' = t1" "it' = it1"
      by simp_all
    with r1 show ?thesis by simp
  next
    case False
    with Cons.prems s have "sweepSlices env t1 it1 bs = Some (res, t', it')"
      by simp
    from sweepRel_trans [OF r1 Cons.IH [OF this]] show ?thesis .
  qed
qed

lemma sweepAll_loop_eq:
  "\<not> e_removed e \<Longrightarrow>
     sweepAll_loop env s e
       = take (e_cur e) s
         @ filter (\<lambda>x. \<not> IsAboutToBeFinalized env (asPtrUnbarriered x)) (drop (e_cur e) s)"
proof (induction env s e rule: sweepAll_loop.induct)
  case (1 env s e)
  note eq = sweepAll_loop.simps [of env s e]
  let ?live = "\<lambda>x. \<not> IsAboutToBeFinalized env (asPtrUnbarriered x)"
  show ?case
  proof (cases "Enum_empty s e")
    case True
    with "1.prems" show ?thesis
      by (simp add: eq Enum_empty_def)
  next
    case False
    with "1.prems" have cur: "e_cur e < length s"
      by (simp add: Enum_empty_def)
    then have d: "drop (e_cur e) s = s ! e_cur e # drop (Suc (e_cur e)) s"
      by (simp add: Cons_nth_drop_Suc)
    show ?thesis
    proof (cases "IsAboutToBeFinalized env (asPtrUnbarriered (Enum_front s e))")
      case True
      let ?s' = "take (e_cur e) s @ drop (Suc (e_cur e)) s"
      let ?e' = "Enum_popFront (e\<lparr>e_removed := True\<rparr>)"
      have e': "\<not> e_removed ?e'" "e_cur ?e' = e_cur e"
        by (simp_all add: Enum_popFront_def)
      have ih: "sweepAll_loop env ?s' ?e'
                  = take (e_cur ?e') ?s' @ filter ?live (drop (e_cur ?e') ?s')"
        using "1.IH" [OF False refl _ refl, of ?s' "e\<lparr>e_removed := True\<rparr>"] True e'(1)
        by (simp add: Enum_removeFront_def)
      have "sweepAll_loop env s e = sweepAll_loop env ?s' ?e'"
        using False True by (simp add: eq Let_def Enum_removeFront_def)
      also note ih
      finally show ?thesis
        using True cur d by (simp add: e' Enum_front_def)
    next
      case nd: False
      let ?e' = "Enum_popFront e"
      have e': "\<not> e_removed ?e'" "e_cur ?e' = Suc (e_cur e)"
        using "1.prems" by (simp_all add: Enum_popFront_def)
      have ih: "sweepAll_loop env s ?e'
                  = take (e_cur ?e') s @ filter ?live (drop (e_cur ?e') s)"
        using "1.IH" [OF False refl _ refl, of s e] nd e'(1)
        by simp
      have "sweepAll_loop env s e = sweepAll_loop env s ?e'"
        using False nd by (simp add: eq Let_def)
      also note ih
      finally show ?thesis
        using nd cur d by (simp add: e' Enum_front_def take_Suc_conv_app_nth)
    qed
  qed
qed

lemma sweepAll_eq:
  "sweepAll env t
     = t\<lparr>partitions :=
           map (\<lambda>part. part\<lparr>atoms :=
                  filter (\<lambda>x. \<not> IsAboutToBeFinalized env (asPtrUnbarriered x)) (atoms part)\<rparr>)
               (partitions t)\<rparr>"
  by (simp add: sweepAll_def sweepAll_loop_eq Enum_init_def)

subsection \<open>The sweep returns\<close>

lemma settle_total:
  assumes "partitionIndex it < PartitionCount t" and "atomsIter it = Some e"
    and "\<not> e_removed e"
    and "\<forall>i < PartitionCount t.
           partitionIndex it \<le> i \<longrightarrow> atomsAddedWhileSweeping (partitions t ! i) \<noteq> None"
    and ok: "\<forall>a. putNewOk env a"
  shows "\<exists>t' it'. settle env t it = Some (t', it') \<and> sweepValid t' it'"
  using assms
proof (induction env t it arbitrary: e rule: settle.induct)
  case (1 env t it)
  note eq = settle.simps [of env t it]
  let ?i = "partitionIndex it"
  show ?case
  proof (cases "Enum_empty (atoms (partitions t ! ?i)) e")
    case False
    with "1.prems" have "settle env t it = Some (t, it)"
      by (simp add: eq)
    moreover from False "1.prems" have "sweepValid t it"
      by (auto simp: sweepValid_def Enum_empty_def)
    ultimately show ?thesis by blast
  next
    case True
    from "1.prems" obtain added where
      added: "atomsAddedWhileSweeping (partitions t ! ?i) = Some added"
      by auto
    let ?part = "(partitions t ! ?i)\<lparr>atoms := atoms (partitions t ! ?i) @ added,
                                      atomsAddedWhileSweeping := None\<rparr>"
    let ?t1 = "t\<lparr>partitions := (partitions t)[?i := ?part]\<rparr>"
    let ?it1 = "it\<lparr>atomsIter := None\<rparr>"
    let ?it2 = "?it1\<lparr>partitionIndex := Suc (partitionIndex ?it1)\<rparr>"
    have all: "list_all (\<lambda>r. putNewOk env (asPtrUnbarriered r)) added"
      using "1.prems"(5) by (simp add: list_all_iff)
    have fin: "finishSweepingPartition env t it = Some (?t1, ?it1)"
      using "1.prems"(1) added all
      by (simp add: finishSweepingPartition_def mergeAtomsAddedWhileSweeping_def merge_loop_eq)
    have n: "PartitionCount ?t1 = PartitionCount t"
      by (simp add: PartitionCount_def)
    show ?thesis
    proof (cases "SweepIterator_empty ?t1 ?it2")
      case emp: True
      with "1.prems" True fin have "settle env t it = Some (?t1, ?it2)"
        by (simp add: eq Let_def)
      moreover from emp have "sweepValid ?t1 ?it2"
        by (simp add: sweepValid_def SweepIterator_empty_def)
      ultimately show ?thesis by blast
    next
      case False
      with "1.prems" True fin
      have rec: "settle env t it = settle env ?t1 (startSweepingPartition ?t1 ?it2)"
        by (simp add: eq Let_def)
      from False "1.prems"(1) have lt: "Suc ?i < PartitionCount t"
        by (simp add: SweepIterator_empty_def n)
      have sec: "\<forall>i < PartitionCount ?t1.
           partitionIndex (startSweepingPartition ?t1 ?it2) \<le> i \<longrightarrow>
           atomsAddedWhileSweeping (partitions ?t1 ! i) \<noteq> None"
        using "1.prems"(4)
        by (auto simp: startSweepingPartition_def PartitionCount_def nth_list_update)
      have "\<exists>t' it'. settle env ?t1 (startSweepingPartition ?t1 ?it2) = Some (t', it')
              \<and> sweepValid t' it'"
        using "1.IH" [of e "(?t1, ?it1)" ?t1 ?it1 ?it2 Enum_init]
          "1.prems"(1,2,5) True fin False lt sec
        by (simp add: startSweepingPartition_def Enum_init_def n)
      with rec show ?thesis by simp
    qed
  qed
qed

lemma sweepIncrementally_total:
  assumes "sweepValid t it" and ok: "\<forall>a. putNewOk env a"
  shows "\<exists>res t' it' b'. sweepIncrementally env t it b = Some (res, t', it', b')
           \<and> sweepValid t' it'"
  using assms
proof (induction env t it b rule: sweepIncrementally.induct)
  case (1 env t it b)
  note eq = sweepIncrementally.simps [of env t it b]
  show ?case
  proof (cases "SweepIterator_empty t it")
    case True
    with "1.prems" show ?thesis
      by (auto simp: eq)
  next
    case ne: False
    show ?thesis
    proof (cases "isOverBudget (SliceBudget_step b)")
      case True
      with "1.prems" ne show ?thesis
        by (auto simp: eq Let_def)
    next
      case nb: False
      let ?i = "partitionIndex it"
      from ne "1.prems"(1) have lt: "?i < PartitionCount t"
        by (simp add: sweepValid_def SweepIterator_empty_def)
      with "1.prems"(1) obtain e where e: "atomsIter it = Some e" "\<not> e_removed e"
        "e_cur e < length (atoms (partitions t ! ?i))"
        by (auto simp: sweepValid_def)
      let ?atom = "asPtrUnbarriered (Enum_front (atoms (partitions t ! ?i)) e)"
      have f: "SweepIterator_front t it = Some ?atom"
        using lt e by (simp add: SweepIterator_front_def)
      let ?r = "if IsAboutToBeFinalized env ?atom then SweepIterator_removeFront t it
                else Some (t, it)"
      obtain t1 it1 e1 where r: "?r = Some (t1, it1)"
        and it1: "partitionIndex it1 = ?i" "atomsIter it1 = Some e1"
          "\<not> e_removed (Enum_popFront e1)"
        and t1: "PartitionCount t1 = PartitionCount t"
          "\<forall>i < PartitionCount t. atomsAddedWhileSweeping (partitions t1 ! i)
                                   = atomsAddedWhileSweeping (partitions t ! i)"
        using lt e
        by (cases "IsAboutToBeFinalized env ?atom")
           (auto simp: SweepIterator_removeFront_def Enum_removeFront_def Let_def
              Enum_popFront_def PartitionCount_def nth_list_update)
      have "\<exists>t2 it2. settle env t1 (it1\<lparr>atomsIter := Some (Enum_popFront e1)\<rparr>) = Some (t2, it2)
              \<and> sweepValid t2 it2"
        using lt it1 t1 "1.prems"
        by (intro settle_total [where e = "Enum_popFront e1"]) (auto simp: sweepValid_def)
      then obtain t2 it2 where p: "SweepIterator_popFront env t1 it1 = Some (t2, it2)"
        and v: "sweepValid t2 it2"
        using it1(2) by (auto simp: SweepIterator_popFront_def)
      from ne nb f r p
      have "sweepIncrementally env t it b = sweepIncrementally env t2 it2 (SliceBudget_step b)"
        by (simp add: eq Let_def)
      with "1.IH" [OF ne refl nb f r refl p refl v "1.prems"(2)] show ?thesis
        by simp
    qed
  qed
qed

lemma sweptBehind_sweepRel:
  assumes r: "sweepRel env t it t' it'" and b: "sweptBehind t it"
  shows "sweptBehind t' it'"
proof -
  have "atomsAddedWhileSweeping (partitions t' ! i) = None"
    if i: "i < PartitionCount t" "i < partitionIndex it'" for i
  proof -
    from r i(1) have p: "partSwept env (partitionIndex it) (partitionIndex it') i
                           (partitions t ! i) (partitions t' ! i)"
      by (simp add: sweepRel_def)
    show ?thesis
    proof (cases "i < partitionIndex it")
      case True
      with p b i(1) show ?thesis
        by (simp add: partSwept_def sweptBehind_def)
    next
      case False
      with p i(2) show ?thesis
        by (simp add: partSwept_def)
    qed
  qed
  with r show ?thesis
    by (simp add: sweptBehind_def sweepRel_def)
qed

subsection \<open>A concrete sweep in two slices\<close>

lemmas sweep_eval =
  sweepIncrementally.simps settle.simps SweepIterator_empty_def SweepIterator_front_def
  SweepIterator_removeFront_def SweepIterator_popFront_def finishSweepingPartition_def
  mergeAtomsAddedWhileSweeping_def merge_loop_eq startSweepingPartition_def
  Enum_init_def Enum_empty_def Enum_front_def Enum_removeFront_def Enum_popFront_def
  SliceBudget_step_def isOverBudget_def PartitionCount_def Let_def

lemma ex_new: "SweepIterator_new exEnv exSweepingP = Some (exSweepingP, exIter)"
  by (simp add: SweepIterator_new_def sweep_eval exSweepingP_def exIter_def)

lemma ex_slice1:
  "sweepIncrementally exEnv exSweepingP exIter \<lparr>counter = 2\<rparr>
     = Some (False, exMid, exIter, \<lparr>counter = 0\<rparr>)"
  by (simp add: sweep_eval exSweepingP_def exMid_def exIter_def exEntry_def exEnv_def hashUnits_def)

lemma ex_slice2:
  "sweepIncrementally exEnv exMid exIter \<lparr>counter = 10\<rparr>
     = Some (True, exSwept, exIterEnd, \<lparr>counter = 9\<rparr>)"
  by (simp add: sweep_eval exSwept_def exMid_def exIter_def exIterEnd_def exEntry_def exEnv_def hashUnits_def)

lemma ex_slices:
  "sweepSlices exEnv exSweepingP exIter [\<lparr>counter = 2\<rparr>, \<lparr>counter = 10\<rparr>]
     = Some (True, exSwept, exIterEnd)"
  by (simp add: ex_slice1 ex_slice2)

subsection \<open>Pinned atoms and the sweeps\<close>

lemma pinnedIn_partSwept:
  assumes "partSwept env a b i part part'" and "pinnedIn part atom"
    and "\<not> IsAboutToBeFinalized env atom"
  shows "pinnedIn part' atom"
  using assms
  by (auto simp: partSwept_def pinnedIn_def sweptTo_def split: if_splits option.splits)

lemma pinnedIn_sweepRel:
  assumes "sweepRel env t it t' it'" and "i < PartitionCount t"
    and "pinnedIn (partitions t ! i) atom" and "\<not> IsAboutToBeFinalized env atom"
  shows "pinnedIn (partitions t' ! i) atom"
  using assms pinnedIn_partSwept unfolding sweepRel_def by blast

lemma pinnedIn_traced:
  assumes "i < PartitionCount t" and "pinnedIn (partitions t ! i) atom"
  shows "atom \<in> set (tracePinnedAtoms t)"
proof -
  let ?e = "\<lparr>asPtrUnbarriered = atom, isPinned = True\<rparr>"
  have sel: "asPtrUnbarriered ?e = atom" "isPinned ?e"
    by simp_all
  have mem: "partitions t ! i \<in> set (partitions t)"
    using assms(1) by (simp add: PartitionCount_def)
  have "atom \<in> set (tracePinnedAtomsInSet (atoms (partitions t ! i))
                     @ (case atomsAddedWhileSweeping (partitions t ! i) of
                          None \<Rightarrow> []
                        | Some added \<Rightarrow> tracePinnedAtomsInSet added))"
    using assms(2) sel
    by (force simp: pinnedIn_def tracePinnedAtomsInSet_def split: option.splits)
  with mem show ?thesis
    unfolding tracePinnedAtoms_def by auto
qed

lemma pinExistingAtom_Some:
  assumes "pinExistingAtom env heap t atom = Some (heap', t')"
  shows "\<exists>i < PartitionCount t'. pinnedIn (partitions t' ! i) atom"
proof -
  from assms obtain lookup where l: "Lookup_atom heap atom = Some lookup"
    by (auto simp: pinExistingAtom_def split: option.splits)
  let ?i = "getPartitionIndex env lookup"
  from assms l have a: "atom < length heap" "\<not> a_pinned (heap ! atom)"
    "?i < PartitionCount t"
    by (auto simp: pinExistingAtom_def Lookup_atom_def Let_def split: if_splits)
  have m: "\<And>h e. match h e lookup = (asPtrUnbarriered e = atom)"
    using match_atom [OF l] by simp
  have "heldIn (partitions t ! ?i) atom"
  proof (cases "AtomSet_lookup heap (atoms (partitions t ! ?i)) lookup")
    case (Some k)
    from AtomSet_lookup_Some [OF Some] m show ?thesis
      by (force simp: heldIn_def)
  next
    case None
    with assms l a obtain added k where
      "atomsAddedWhileSweeping (partitions t ! ?i) = Some added"
      "AtomSet_lookup heap added lookup = Some k"
      by (auto simp: pinExistingAtom_def Let_def split: option.splits if_splits)
    with AtomSet_lookup_Some [OF this(2)] m show ?thesis
      by (force simp: heldIn_def)
  qed
  from pinExistingAtom_ok [OF a(1,2) l a(3) this] assms
  have "pinnedIn (partitions t' ! ?i) atom"
    by auto
  moreover from assms l a have "PartitionCount t' = PartitionCount t"
    by (auto simp: pinExistingAtom_def Let_def PartitionCount_def split: option.splits if_splits)
  ultimately show ?thesis
    using a(3) by auto
qed

text \<open>
  C2, as the code has it. The sweeps do not read the pinned bit: \<open>sweepAll\<close> leaves in
  each primary set exactly the entries whose atom the collector does not find about to be
  finalized. What keeps a pinned atom is the collector: \<open>pinExistingAtom\<close> leaves the
  atom in an entry with the pinned bit set, \<open>tracePinnedAtoms\<close> hands every such atom to
  the tracer as a root, and as long as the collector does not find the atom about to be
  finalized, \<open>sweepAll\<close> and any number of slices of \<open>sweepIncrementally\<close> keep its
  pinned entry in its partition.
\<close>

theorem pinned_entry_kept_unless_finalized:
  "(pinExistingAtom env heap t0 atom = Some (heap', t) \<longrightarrow>
      (\<exists>i < PartitionCount t. pinnedIn (partitions t ! i) atom))
   \<and> (i < PartitionCount t \<and> pinnedIn (partitions t ! i) atom \<longrightarrow>
        atom \<in> set (tracePinnedAtoms t)
        \<and> (\<not> IsAboutToBeFinalized env atom \<longrightarrow>
             PartitionCount (sweepAll env t) = PartitionCount t
             \<and> pinnedIn (partitions (sweepAll env t) ! i) atom
             \<and> (\<forall>it bs res t' it'.
                  sweepSlices env t it bs = Some (res, t', it') \<longrightarrow>
                  PartitionCount t' = PartitionCount t
                  \<and> pinnedIn (partitions t' ! i) atom)))
   \<and> (i < PartitionCount t \<longrightarrow>
        atoms (partitions (sweepAll env t) ! i)
          = filter (\<lambda>x. \<not> IsAboutToBeFinalized env (asPtrUnbarriered x))
              (atoms (partitions t ! i))
        \<and> atomsAddedWhileSweeping (partitions (sweepAll env t) ! i)
          = atomsAddedWhileSweeping (partitions t ! i))"
proof (intro conjI impI allI)
  assume "pinExistingAtom env heap t0 atom = Some (heap', t)"
  then show "\<exists>i < PartitionCount t. pinnedIn (partitions t ! i) atom"
    by (rule pinExistingAtom_Some)
next
  assume "i < PartitionCount t \<and> pinnedIn (partitions t ! i) atom"
  then show "atom \<in> set (tracePinnedAtoms t)"
    using pinnedIn_traced by blast
next
  show "PartitionCount (sweepAll env t) = PartitionCount t"
    by (simp add: sweepAll_eq PartitionCount_def)
next
  assume "i < PartitionCount t \<and> pinnedIn (partitions t ! i) atom"
    and "\<not> IsAboutToBeFinalized env atom"
  then show "pinnedIn (partitions (sweepAll env t) ! i) atom"
    by (auto simp: sweepAll_eq PartitionCount_def pinnedIn_def split: option.splits)
next
  fix it bs res t' it'
  assume s: "sweepSlices env t it bs = Some (res, t', it')"
  from sweepSlices_rel [OF s] show "PartitionCount t' = PartitionCount t"
    by (simp add: sweepRel_def)
next
  fix it bs res t' it'
  assume "i < PartitionCount t \<and> pinnedIn (partitions t ! i) atom"
    and "\<not> IsAboutToBeFinalized env atom"
    and s: "sweepSlices env t it bs = Some (res, t', it')"
  with pinnedIn_sweepRel [OF sweepSlices_rel [OF s]]
  show "pinnedIn (partitions t' ! i) atom"
    by blast
next
  assume "i < PartitionCount t"
  then show "atoms (partitions (sweepAll env t) ! i)
          = filter (\<lambda>x. \<not> IsAboutToBeFinalized env (asPtrUnbarriered x))
              (atoms (partitions t ! i))"
    by (simp add: sweepAll_eq PartitionCount_def)
next
  assume "i < PartitionCount t"
  then show "atomsAddedWhileSweeping (partitions (sweepAll env t) ! i)
          = atomsAddedWhileSweeping (partitions t ! i)"
    by (simp add: sweepAll_eq PartitionCount_def)
qed

theorem pinned_entry_kept_unless_finalized_witness:
  "pinExistingAtom exEnv exHeapABC exSweeping 1
     = Some (exHeapABC[1 := exAtomB\<lparr>a_pinned := True\<rparr>], exSweepingP)
   \<and> 0 < PartitionCount exSweepingP \<and> pinnedIn (partitions exSweepingP ! 0) 1
   \<and> 1 \<in> set (tracePinnedAtoms exSweepingP)
   \<and> \<not> IsAboutToBeFinalized exEnv 1
   \<and> pinnedIn (partitions (sweepAll exEnv exSweepingP) ! 0) 1
   \<and> sweepSlices exEnv exSweepingP exIter [\<lparr>counter = 2\<rparr>, \<lparr>counter = 10\<rparr>]
     = Some (True, exSwept, exIterEnd)
   \<and> pinnedIn (partitions exSwept ! 0) 1
   \<and> atoms (partitions (sweepAll exEnv exSweepingP) ! 0) = [exEntry 1 True]"
proof -
  let ?l = "\<lparr>l_chars = Latin1Chars [98], l_atom = Some 1, l_hash = 98\<rparr>"
  have l: "Lookup_atom exHeapABC 1 = Some ?l"
    by (simp add: Lookup_atom_def exHeapABC_def exAtomB_def)
  have i: "getPartitionIndex exEnv ?l = 0"
    by (simp add: getPartitionIndex_def exEnv_def hashUnits_def drop_bit_eq_div)
  have pin: "pinExistingAtom exEnv exHeapABC exSweeping 1
     = Some (exHeapABC[1 := exAtomB\<lparr>a_pinned := True\<rparr>], exSweepingP)"
    unfolding pinExistingAtom_def l option.case i Let_def
    by (simp add: exSweeping_def exSweepingP_def PartitionCount_def exHeapABC_def exAtomB_def
          match_def exEntry_def AddPtr_entry_def AddPtr_setPinned_def Entry_setPinned_def)
  have n: "0 < PartitionCount exSweepingP"
    by (simp add: PartitionCount_def exSweepingP_def)
  have p: "pinnedIn (partitions exSweepingP ! 0) 1"
    by (simp add: pinnedIn_def exSweepingP_def exEntry_def)
  have live: "\<not> IsAboutToBeFinalized exEnv 1"
    by (simp add: exEnv_def hashUnits_def)
  note a = pinned_entry_kept_unless_finalized
    [where env = exEnv and heap = exHeapABC and ?t0.0 = exSweeping and atom = 1
       and t = exSweepingP and i = 0 and heap' = "exHeapABC[1 := exAtomB\<lparr>a_pinned := True\<rparr>]"]
  from a n p live
  have r: "1 \<in> set (tracePinnedAtoms exSweepingP)"
    "pinnedIn (partitions (sweepAll exEnv exSweepingP) ! 0) 1"
    "\<forall>it bs res t' it'. sweepSlices exEnv exSweepingP it bs = Some (res, t', it') \<longrightarrow>
        pinnedIn (partitions t' ! 0) 1"
    "atoms (partitions (sweepAll exEnv exSweepingP) ! 0)
       = filter (\<lambda>x. \<not> IsAboutToBeFinalized exEnv (asPtrUnbarriered x))
           (atoms (partitions exSweepingP ! 0))"
    by simp_all
  from r(3) ex_slices have s: "pinnedIn (partitions exSwept ! 0) 1"
    by blast
  from r(4) have f: "atoms (partitions (sweepAll exEnv exSweepingP) ! 0) = [exEntry 1 True]"
    by (simp add: exSweepingP_def exEntry_def exEnv_def hashUnits_def)
  from pin n p r(1) live r(2) ex_slices s f show ?thesis
    by blast
qed

text \<open>
  The claim as the spec states it fails: atom 0 is pinned, the collector finds it about to
  be finalized, and \<open>sweepAll\<close> removes its entry.
\<close>

theorem pinned_entry_swept_counterexample:
  "pinExistingAtom exEnv [exAtomA] (exTableA False) 0
     = Some ([exAtomA\<lparr>a_pinned := True\<rparr>], exTableA True)
   \<and> IsAboutToBeFinalized exEnv 0
   \<and> sweepAll exEnv (exTableA True) = \<lparr>partitions = [Partition_new, Partition_new]\<rparr>"
proof -
  let ?l = "\<lparr>l_chars = Latin1Chars [97], l_atom = Some 0, l_hash = 97\<rparr>"
  have l: "Lookup_atom [exAtomA] 0 = Some ?l"
    by (simp add: Lookup_atom_def exAtomA_def)
  have i: "getPartitionIndex exEnv ?l = 0"
    by (simp add: getPartitionIndex_def exEnv_def hashUnits_def drop_bit_eq_div)
  have "pinExistingAtom exEnv [exAtomA] (exTableA False) 0
     = Some ([exAtomA\<lparr>a_pinned := True\<rparr>], exTableA True)"
    unfolding pinExistingAtom_def l option.case i Let_def
    by (simp add: exTableA_def PartitionCount_def exAtomA_def match_def exEntry_def
          AddPtr_entry_def AddPtr_setPinned_def Entry_setPinned_def)
  moreover have "IsAboutToBeFinalized exEnv 0"
    by (simp add: exEnv_def hashUnits_def)
  moreover have "sweepAll exEnv (exTableA True) = \<lparr>partitions = [Partition_new, Partition_new]\<rparr>"
    by (simp add: sweepAll_eq exTableA_def exEntry_def exEnv_def hashUnits_def Partition_new_def)
  ultimately show ?thesis
    by blast
qed

subsection \<open>The budgeted sweep and the merge\<close>

lemma liveEntries_append [simp]:
  "liveEntries env (xs @ ys) = liveEntries env xs @ liveEntries env ys"
  by (simp add: liveEntries_def)

lemma liveEntries_Nil [simp]: "liveEntries env [] = []"
  by (simp add: liveEntries_def)

lemma partExact_refl:
  "partExact env it it i part part"
proof -
  have "\<exists>m. m \<le> length (drop (sweepCut it i) (atoms part))
          \<and> atoms part = take (sweepCut it i) (atoms part)
               @ liveEntries env (take m (drop (sweepCut it i) (atoms part)))
               @ drop m (drop (sweepCut it i) (atoms part))
          \<and> sweepCut it i = sweepCut it i
               + length (liveEntries env (take m (drop (sweepCut it i) (atoms part))))"
    by (rule exI [of _ 0]) simp
  then show ?thesis
    by (simp add: partExact_def)
qed

lemma sweepExact_refl: "sweepExact env t it t it"
  by (simp add: sweepExact_def partExact_refl)

lemma partExact_trans:
  assumes le: "partitionIndex it \<le> partitionIndex it1" "partitionIndex it1 \<le> partitionIndex it2"
    and c: "sweepCut it i \<le> length (atoms part)"
    and p: "partExact env it it1 i part part1" and q: "partExact env it1 it2 i part1 part2"
  shows "partExact env it it2 i part part2"
proof -
  let ?a = "partitionIndex it" and ?b = "partitionIndex it1" and ?c = "partitionIndex it2"
  let ?P = "atoms part"
  let ?k = "sweepCut it i"
  let ?R = "drop ?k ?P"
  have cut0: "sweepCut it1 i = 0" if "i \<noteq> ?b"
    using that by (simp add: sweepCut_def)
  have cut0': "sweepCut it i = 0" if "i \<noteq> ?a"
    using that by (simp add: sweepCut_def)
  consider "i < ?a" | "?c < i" | "?a \<le> i" "i < ?b" | "i = ?b" "?b < ?c" | "i = ?b" "?b = ?c"
    | "?b < i" "i < ?c" | "?b < i" "i = ?c"
    using le by linarith
  then show ?thesis
  proof cases
    case 1
    with p q le show ?thesis by (simp add: partExact_def)
  next
    case 2
    with p q le show ?thesis by (simp add: partExact_def)
  next
    case 3
    with p q le show ?thesis by (auto simp: partExact_def)
  next
    case 4
    with p le obtain m where m: "m \<le> length ?R"
      and sec1: "atomsAddedWhileSweeping part1 = atomsAddedWhileSweeping part"
      and P1: "atoms part1 = take ?k ?P @ liveEntries env (take m ?R) @ drop m ?R"
      and c1: "sweepCut it1 i = ?k + length (liveEntries env (take m ?R))"
      by (auto simp: partExact_def)
    from q 4 le obtain added where sec2: "atomsAddedWhileSweeping part2 = None"
      and added: "atomsAddedWhileSweeping part1 = Some added"
      and P2: "atoms part2 = take (sweepCut it1 i) (atoms part1)
                 @ liveEntries env (drop (sweepCut it1 i) (atoms part1)) @ added"
      by (auto simp: partExact_def)
    from c have lk: "length (take ?k ?P) = ?k"
      by simp
    have t1: "take (sweepCut it1 i) (atoms part1) = take ?k ?P @ liveEntries env (take m ?R)"
      unfolding P1 c1 using lk by simp
    have d1: "drop (sweepCut it1 i) (atoms part1) = drop m ?R"
      unfolding P1 c1 using lk by simp
    have "liveEntries env (take m ?R) @ liveEntries env (drop m ?R) = liveEntries env ?R"
      by (metis liveEntries_append append_take_drop_id)
    then have "atoms part2 = take ?k ?P @ liveEntries env ?R @ added"
      unfolding P2 t1 d1 by simp
    with 4 le sec1 sec2 added show ?thesis
      by (simp add: partExact_def)
  next
    case 5
    with p le obtain m where m: "m \<le> length ?R"
      and sec1: "atomsAddedWhileSweeping part1 = atomsAddedWhileSweeping part"
      and P1: "atoms part1 = take ?k ?P @ liveEntries env (take m ?R) @ drop m ?R"
      and c1: "sweepCut it1 i = ?k + length (liveEntries env (take m ?R))"
      by (auto simp: partExact_def)
    from c have lk: "length (take ?k ?P) = ?k"
      by simp
    have t1: "take (sweepCut it1 i) (atoms part1) = take ?k ?P @ liveEntries env (take m ?R)"
      unfolding P1 c1 using lk by simp
    have d1: "drop (sweepCut it1 i) (atoms part1) = drop m ?R"
      unfolding P1 c1 using lk by simp
    from q 5 le obtain m2 where m2: "m2 \<le> length (drop m ?R)"
      and sec2: "atomsAddedWhileSweeping part2 = atomsAddedWhileSweeping part1"
      and P2: "atoms part2 = take (sweepCut it1 i) (atoms part1)
                 @ liveEntries env (take m2 (drop (sweepCut it1 i) (atoms part1)))
                 @ drop m2 (drop (sweepCut it1 i) (atoms part1))"
      and c2: "sweepCut it2 i = sweepCut it1 i
                 + length (liveEntries env (take m2 (drop (sweepCut it1 i) (atoms part1))))"
      unfolding d1 [symmetric] by (auto simp: partExact_def)
    have tk: "take (m + m2) ?R = take m ?R @ take m2 (drop m ?R)"
      by (simp add: take_add)
    have A: "atoms part2 = take ?k ?P @ liveEntries env (take (m + m2) ?R) @ drop (m + m2) ?R"
      unfolding P2 t1 d1 tk by (simp add: ac_simps)
    from c2 have "sweepCut it2 i
        = sweepCut it1 i + length (liveEntries env (take m2 (drop m ?R)))"
      by (simp only: d1)
    then have B: "sweepCut it2 i = ?k + length (liveEntries env (take (m + m2) ?R))"
      unfolding c1 tk by simp
    from m m2 have C: "m + m2 \<le> length ?R"
      by simp
    from A B C have "\<exists>m. m \<le> length ?R
          \<and> atoms part2 = take ?k ?P @ liveEntries env (take m ?R) @ drop m ?R
          \<and> sweepCut it2 i = ?k + length (liveEntries env (take m ?R))"
      by blast
    with 5 le sec1 sec2 show ?thesis
      by (simp add: partExact_def)
  next
    case 6
    with p le have "part1 = part"
      by (simp add: partExact_def)
    moreover from 6 le have "sweepCut it1 i = 0" "sweepCut it i = 0"
      by (simp_all add: sweepCut_def)
    ultimately show ?thesis
      using q 6 le by (simp add: partExact_def)
  next
    case 7
    with p le have "part1 = part"
      by (simp add: partExact_def)
    moreover from 7 le have "sweepCut it1 i = 0" "sweepCut it i = 0"
      by (simp_all add: sweepCut_def)
    ultimately show ?thesis
      using q 7 le by (simp add: partExact_def)
  qed
qed

lemma sweepExact_trans:
  assumes a: "sweepExact env t it t1 it1" and b: "sweepExact env t1 it1 t2 it2"
    and c: "\<forall>i < PartitionCount t. sweepCut it i \<le> length (atoms (partitions t ! i))"
  shows "sweepExact env t it t2 it2"
  using a b c unfolding sweepExact_def
  by (auto intro: partExact_trans)

lemma sweepExact_index:
  assumes "partitionIndex it0' = partitionIndex it'"
    and "sweepCut it0' (partitionIndex it') = sweepCut it' (partitionIndex it')"
    and "sweepExact env t it t' it'"
  shows "sweepExact env t it t' it0'"
  using assms by (auto simp: sweepExact_def partExact_def)

lemma toSweep_eq:
  assumes "partitionIndex it < PartitionCount t"
  shows "toSweep t it
     = (length (atoms (partitions t ! partitionIndex it)) - sweepCut it (partitionIndex it))
       + aheadSize t (Suc (partitionIndex it))"
proof -
  have "map (\<lambda>i. length (atoms (partitions t ! i)) - sweepCut it i)
          [Suc (partitionIndex it) ..< PartitionCount t]
        = map (\<lambda>i. length (atoms (partitions t ! i))) [Suc (partitionIndex it) ..< PartitionCount t]"
    by (rule map_cong) (auto simp: sweepCut_def)
  then have "sum_list (map (\<lambda>i. length (atoms (partitions t ! i)) - sweepCut it i)
          [Suc (partitionIndex it) ..< PartitionCount t]) = aheadSize t (Suc (partitionIndex it))"
    unfolding aheadSize_def by (rule arg_cong)
  moreover from assms have "[partitionIndex it ..< PartitionCount t]
      = partitionIndex it # [Suc (partitionIndex it) ..< PartitionCount t]"
    by (simp add: upt_conv_Cons)
  ultimately show ?thesis
    by (simp add: toSweep_def)
qed

lemma toSweep_end: "\<not> partitionIndex it < PartitionCount t \<Longrightarrow> toSweep t it = 0"
  by (simp add: toSweep_def)

lemma aheadSize_update:
  "i < k \<Longrightarrow> aheadSize (t\<lparr>partitions := (partitions t)[i := p]\<rparr>) k = aheadSize t k"
  unfolding aheadSize_def PartitionCount_def
  by (auto intro!: arg_cong [where f = sum_list] map_cong)

lemma aheadSize_Suc:
  "k < PartitionCount t \<Longrightarrow>
     aheadSize t k = length (atoms (partitions t ! k)) + aheadSize t (Suc k)"
  by (simp add: aheadSize_def upt_conv_Cons)

lemma sweepCut_self:
  "atomsIter it = Some e \<Longrightarrow> sweepCut it (partitionIndex it) = e_cur e"
  by (simp add: sweepCut_def)

lemma sweepCut_other: "i \<noteq> partitionIndex it \<Longrightarrow> sweepCut it i = 0"
  by (simp add: sweepCut_def)

lemma examine_exact:
  assumes lt: "partitionIndex it < PartitionCount t"
    and e: "atomsIter it = Some e" "\<not> e_removed e"
    and cur: "e_cur e < length (atoms (partitions t ! partitionIndex it))"
    and r: "(if IsAboutToBeFinalized env
                  (asPtrUnbarriered (atoms (partitions t ! partitionIndex it) ! e_cur e))
             then SweepIterator_removeFront t it else Some (t, it)) = Some (t1, it1)"
  shows "\<exists>e1. atomsIter it1 = Some e1 \<and> partitionIndex it1 = partitionIndex it
      \<and> \<not> e_removed (Enum_popFront e1) \<and> PartitionCount t1 = PartitionCount t
      \<and> e_cur (Enum_popFront e1) \<le> length (atoms (partitions t1 ! partitionIndex it))
      \<and> sweepExact env t it t1 (it1\<lparr>atomsIter := Some (Enum_popFront e1)\<rparr>)
      \<and> Suc (toSweep t1 (it1\<lparr>atomsIter := Some (Enum_popFront e1)\<rparr>)) = toSweep t it"
proof -
  let ?i = "partitionIndex it"
  let ?part = "partitions t ! ?i"
  let ?P = "atoms ?part"
  let ?k = "e_cur e"
  from cur have R: "drop ?k ?P = ?P ! ?k # drop (Suc ?k) ?P"
    by (simp add: Cons_nth_drop_Suc)
  have k: "sweepCut it ?i = ?k"
    using e by (simp add: sweepCut_def)
  show ?thesis
  proof (cases "IsAboutToBeFinalized env (asPtrUnbarriered (?P ! ?k))")
    case True
    let ?P1 = "take ?k ?P @ drop (Suc ?k) ?P"
    let ?e1 = "e\<lparr>e_removed := True\<rparr>"
    from r True lt e have t1: "t1 = t\<lparr>partitions := (partitions t)[?i := ?part\<lparr>atoms := ?P1\<rparr>]\<rparr>"
      and it1: "it1 = it\<lparr>atomsIter := Some ?e1\<rparr>"
      by (auto simp: SweepIterator_removeFront_def Enum_removeFront_def Let_def)
    let ?it' = "it1\<lparr>atomsIter := Some (Enum_popFront ?e1)\<rparr>"
    have pe: "Enum_popFront ?e1 = e\<lparr>e_removed := False\<rparr>"
      by (simp add: Enum_popFront_def)
    have k': "sweepCut ?it' ?i = ?k"
      by (simp add: sweepCut_def it1 pe)
    have P1: "atoms (partitions t1 ! ?i) = ?P1" and n: "PartitionCount t1 = PartitionCount t"
      using lt by (simp_all add: t1 PartitionCount_def)
    have live: "liveEntries env (take 1 (drop ?k ?P)) = []"
      using True by (simp add: R liveEntries_def)
    have cur_part: "partExact env it ?it' ?i ?part (?part\<lparr>atoms := ?P1\<rparr>)"
    proof -
      have "1 \<le> length (drop ?k ?P)
          \<and> ?P1 = take (sweepCut it ?i) ?P
               @ liveEntries env (take 1 (drop (sweepCut it ?i) ?P))
               @ drop 1 (drop (sweepCut it ?i) ?P)
          \<and> sweepCut ?it' ?i = sweepCut it ?i
               + length (liveEntries env (take 1 (drop (sweepCut it ?i) ?P)))"
        unfolding k k' live using cur by simp
      then have "\<exists>m. m \<le> length (drop (sweepCut it ?i) ?P)
          \<and> ?P1 = take (sweepCut it ?i) ?P
               @ liveEntries env (take m (drop (sweepCut it ?i) ?P))
               @ drop m (drop (sweepCut it ?i) ?P)
          \<and> sweepCut ?it' ?i = sweepCut it ?i
               + length (liveEntries env (take m (drop (sweepCut it ?i) ?P)))"
        unfolding k by blast
      then show ?thesis
        by (simp add: partExact_def it1)
    qed
    have "partExact env it ?it' i (partitions t ! i) (partitions t1 ! i)"
      if "i < PartitionCount t" for i
    proof (cases "i = ?i")
      case True
      with cur_part lt show ?thesis
        by (simp add: t1 PartitionCount_def)
    next
      case False
      then have "partitions t1 ! i = partitions t ! i"
        by (simp add: t1)
      with False show ?thesis
        by (auto simp: partExact_def it1)
    qed
    then have ex: "sweepExact env t it t1 ?it'"
      by (simp add: sweepExact_def n it1)
    have lt1: "partitionIndex ?it' < PartitionCount t1"
      using lt by (simp add: n it1)
    have ah: "aheadSize t1 (Suc ?i) = aheadSize t (Suc ?i)"
      unfolding t1 by (rule aheadSize_update) simp
    have "toSweep t1 ?it' = (length ?P1 - ?k) + aheadSize t (Suc ?i)"
      using toSweep_eq [OF lt1] P1 k' ah by (simp add: it1)
    moreover have "toSweep t it = (length ?P - ?k) + aheadSize t (Suc ?i)"
      using toSweep_eq [OF lt] k by simp
    moreover have "Suc (length ?P1 - ?k) = length ?P - ?k"
      using cur by simp
    ultimately have ts: "Suc (toSweep t1 ?it') = toSweep t it"
      by simp
    have "e_cur (Enum_popFront ?e1) \<le> length (atoms (partitions t1 ! ?i))"
      unfolding P1 pe using cur by simp
    with ex ts n show ?thesis
      by (simp add: it1 pe)
  next
    case False
    with r have t1: "t1 = t" and it1: "it1 = it"
      by simp_all
    let ?it' = "it\<lparr>atomsIter := Some (Enum_popFront e)\<rparr>"
    have pe: "Enum_popFront e = e\<lparr>e_cur := Suc ?k\<rparr>"
      using e(2) by (simp add: Enum_popFront_def)
    have k': "sweepCut ?it' ?i = Suc ?k"
      by (simp add: sweepCut_def pe)
    have live: "liveEntries env (take 1 (drop ?k ?P)) = [?P ! ?k]"
      using False by (simp add: R liveEntries_def)
    have P: "?P = take ?k ?P @ [?P ! ?k] @ drop (Suc ?k) ?P"
      using cur by (simp add: id_take_nth_drop)
    have cur_part: "partExact env it ?it' ?i ?part ?part"
    proof -
      have "1 \<le> length (drop ?k ?P)
          \<and> ?P = take (sweepCut it ?i) ?P
               @ liveEntries env (take 1 (drop (sweepCut it ?i) ?P))
               @ drop 1 (drop (sweepCut it ?i) ?P)
          \<and> sweepCut ?it' ?i = sweepCut it ?i
               + length (liveEntries env (take 1 (drop (sweepCut it ?i) ?P)))"
        unfolding k k' live using cur P by simp
      then have "\<exists>m. m \<le> length (drop (sweepCut it ?i) ?P)
          \<and> ?P = take (sweepCut it ?i) ?P
               @ liveEntries env (take m (drop (sweepCut it ?i) ?P))
               @ drop m (drop (sweepCut it ?i) ?P)
          \<and> sweepCut ?it' ?i = sweepCut it ?i
               + length (liveEntries env (take m (drop (sweepCut it ?i) ?P)))"
        unfolding k by blast
      then show ?thesis
        by (simp add: partExact_def)
    qed
    have "partExact env it ?it' i (partitions t ! i) (partitions t ! i)"
      if "i < PartitionCount t" for i
      using cur_part by (cases "i = ?i") (auto simp: partExact_def)
    then have ex: "sweepExact env t it t ?it'"
      by (simp add: sweepExact_def)
    have lt1: "partitionIndex ?it' < PartitionCount t"
      using lt by simp
    have "toSweep t ?it' = (length ?P - Suc ?k) + aheadSize t (Suc ?i)"
      using toSweep_eq [OF lt1] k' by simp
    moreover have "toSweep t it = (length ?P - ?k) + aheadSize t (Suc ?i)"
      using toSweep_eq [OF lt] k by simp
    ultimately have ts: "Suc (toSweep t ?it') = toSweep t it"
      using cur by simp
    have "e_cur (Enum_popFront e) \<le> length ?P"
      unfolding pe using cur by simp
    with ex ts e show ?thesis
      by (simp add: t1 it1 pe)
  qed
qed

lemma settle_exact:
  assumes "settle env t it = Some (t', it')" and "atomsIter it = Some e" and "\<not> e_removed e"
    and "e_cur e \<le> length (atoms (partitions t ! partitionIndex it))"
  shows "sweepExact env t it t' it' \<and> toSweep t' it' = toSweep t it
     \<and> partitionIndex it' \<le> PartitionCount t'
     \<and> (partitionIndex it' < PartitionCount t' \<longrightarrow>
          (\<exists>e'. atomsIter it' = Some e' \<and> \<not> e_removed e'
                \<and> e_cur e' < length (atoms (partitions t' ! partitionIndex it'))))"
  using assms
proof (induction env t it arbitrary: t' it' e rule: settle.induct)
  case (1 env t it)
  note eq = settle.simps [of env t it]
  let ?i = "partitionIndex it"
  let ?P = "atoms (partitions t ! ?i)"
  from "1.prems"(1) have lt: "?i < PartitionCount t"
    by (auto simp: eq split: if_splits)
  note e = "1.prems"(2,3)
  note cur = "1.prems"(4)
  have k: "sweepCut it ?i = e_cur e"
    using e by (simp add: sweepCut_def)
  show ?case
  proof (cases "Enum_empty ?P e")
    case False
    with "1.prems"(1) lt e have "t' = t" "it' = it"
      by (simp_all add: eq)
    moreover from False e have "e_cur e < length ?P"
      by (simp add: Enum_empty_def)
    ultimately show ?thesis
      using lt e by (simp add: sweepExact_refl)
  next
    case True
    with e cur have full: "e_cur e = length ?P"
      by (simp add: Enum_empty_def)
    from "1.prems"(1) lt e True obtain t1 it1 where
      fin: "finishSweepingPartition env t it = Some (t1, it1)"
      by (auto simp: eq split: option.splits)
    from fin lt obtain part where
      m: "mergeAtomsAddedWhileSweeping env (partitions t ! ?i) = Some part"
      and t1: "t1 = t\<lparr>partitions := (partitions t)[?i := part]\<rparr>"
      and it1: "it1 = it\<lparr>atomsIter := None\<rparr>"
      by (auto simp: finishSweepingPartition_def split: option.splits)
    from mergeAtomsAddedWhileSweeping_Some [OF m] obtain added where
      added: "atomsAddedWhileSweeping (partitions t ! ?i) = Some added"
      and part: "part = (partitions t ! ?i)\<lparr>atoms := ?P @ added, atomsAddedWhileSweeping := None\<rparr>"
      by blast
    let ?it2 = "it1\<lparr>partitionIndex := Suc (partitionIndex it1)\<rparr>"
    let ?it3 = "startSweepingPartition t1 ?it2"
    have n: "PartitionCount t1 = PartitionCount t"
      by (simp add: t1 PartitionCount_def)
    have i2: "partitionIndex ?it2 = Suc ?i" "partitionIndex ?it3 = Suc ?i"
      by (simp_all add: it1 startSweepingPartition_def)
    have c3: "sweepCut ?it3 j = 0" "sweepCut ?it2 j = 0" for j
      by (simp_all add: sweepCut_def startSweepingPartition_def Enum_init_def it1)
    have px: "partExact env it ?it3 j (partitions t ! j) (partitions t1 ! j)"
      if j: "j < PartitionCount t" for j
    proof -
      have p1: "partitions t1 ! ?i = part"
        using lt by (simp add: t1 PartitionCount_def)
      have pj: "partitions t1 ! j = partitions t ! j" if "j \<noteq> ?i"
        using that by (simp add: t1)
      consider "j = ?i" | "j = Suc ?i" | "j < ?i" | "Suc ?i < j"
        by linarith
      then show ?thesis
      proof cases
        case 1
        have "atoms part = take (sweepCut it ?i) ?P
                @ liveEntries env (drop (sweepCut it ?i) ?P) @ added"
          unfolding k full part by simp
        moreover have "atomsAddedWhileSweeping part = None"
          by (simp add: part)
        ultimately show ?thesis
          unfolding partExact_def i2 1 p1 using added by simp
      next
        case 2
        then have "j \<noteq> ?i"
          by simp
        note same = pj [OF this]
        from 2 have cj: "sweepCut it j = 0"
          by (simp add: sweepCut_def)
        have "\<exists>m. m \<le> length (drop 0 (atoms (partitions t ! j)))
            \<and> atoms (partitions t ! j) = take 0 (atoms (partitions t ! j))
                @ liveEntries env (take m (drop 0 (atoms (partitions t ! j))))
                @ drop m (drop 0 (atoms (partitions t ! j)))
            \<and> (0::nat) = 0 + length (liveEntries env (take m (drop 0 (atoms (partitions t ! j)))))"
          by (rule exI [of _ 0]) simp
        with 2 show ?thesis
          unfolding partExact_def same cj c3 i2 by simp
      next
        case 3
        then have "j \<noteq> ?i"
          by simp
        from pj [OF this] 3 show ?thesis
          unfolding partExact_def i2 by simp
      next
        case 4
        then have "j \<noteq> ?i"
          by simp
        from pj [OF this] 4 show ?thesis
          unfolding partExact_def i2 by simp
      qed
    qed
    then have r1: "sweepExact env t it t1 ?it3"
      by (simp add: sweepExact_def n i2)
    have ah: "aheadSize t1 (Suc ?i) = aheadSize t (Suc ?i)"
      unfolding t1 by (rule aheadSize_update) simp
    have ts0: "toSweep t it = aheadSize t (Suc ?i)"
      using toSweep_eq [OF lt] k full by simp
    show ?thesis
    proof (cases "SweepIterator_empty t1 ?it2")
      case emp: True
      with "1.prems"(1) lt e True fin have res: "t' = t1" "it' = ?it2"
        by (simp_all add: eq Let_def)
      from emp have end2: "partitionIndex ?it2 = PartitionCount t1"
        by (simp add: SweepIterator_empty_def)
      from r1 have "sweepExact env t it t1 ?it2"
        by (rule sweepExact_index [rotated 2]) (simp_all add: i2 c3)
      moreover have "toSweep t1 ?it2 = 0"
        using end2 by (simp add: toSweep_end)
      moreover from end2 n i2 have "aheadSize t (Suc ?i) = 0"
        by (simp add: aheadSize_def)
      ultimately show ?thesis
        using res end2 ts0 by simp
    next
      case False
      with "1.prems"(1) lt e True fin
      have rec: "settle env t1 ?it3 = Some (t', it')"
        by (simp add: eq Let_def)
      from False have lt3: "partitionIndex ?it3 < PartitionCount t1"
        using lt by (simp add: SweepIterator_empty_def n i2)
      have it3: "atomsIter ?it3 = Some Enum_init" "\<not> e_removed Enum_init"
        "e_cur Enum_init \<le> length (atoms (partitions t1 ! partitionIndex ?it3))"
        by (simp_all add: startSweepingPartition_def Enum_init_def)
      have nn: "\<not> \<not> ?i < PartitionCount t"
        "\<not> \<not> Enum_empty ?P e"
        using lt True by simp_all
      note ih = "1.IH" [OF nn(1) e(1) nn(2) fin refl refl False rec it3]
      from ih have r2: "sweepExact env t1 ?it3 t' it'"
        and ts: "toSweep t' it' = toSweep t1 ?it3"
        and rest: "partitionIndex it' \<le> PartitionCount t'"
          "partitionIndex it' < PartitionCount t' \<longrightarrow>
            (\<exists>e'. atomsIter it' = Some e' \<and> \<not> e_removed e'
                  \<and> e_cur e' < length (atoms (partitions t' ! partitionIndex it')))"
        by blast+
      have cut: "\<forall>j < PartitionCount t. sweepCut it j \<le> length (atoms (partitions t ! j))"
        using k cur by (auto simp: sweepCut_def)
      note r = sweepExact_trans [OF r1 r2 cut]
      have "toSweep t1 ?it3 = length (atoms (partitions t1 ! Suc ?i)) + aheadSize t1 (Suc (Suc ?i))"
        using toSweep_eq [OF lt3] by (simp add: i2 c3)
      also have "\<dots> = aheadSize t1 (Suc ?i)"
        using lt3 by (simp add: aheadSize_Suc i2)
      finally have "toSweep t1 ?it3 = toSweep t it"
        using ah ts0 by simp
      with r ts rest show ?thesis
        by simp
    qed
  qed
qed

lemma sweepValid_cut:
  "sweepValid t it \<Longrightarrow>
     \<forall>i < PartitionCount t. sweepCut it i \<le> length (atoms (partitions t ! i))"
  by (auto simp: sweepValid_def sweepCut_def)

lemma sweepValid_toSweep:
  assumes "sweepValid t it"
  shows "SweepIterator_empty t it = (toSweep t it = 0)"
proof (cases "partitionIndex it < PartitionCount t")
  case True
  with assms obtain e where "atomsIter it = Some e"
    "e_cur e < length (atoms (partitions t ! partitionIndex it))"
    by (auto simp: sweepValid_def)
  with toSweep_eq [OF True] True show ?thesis
    by (simp add: sweepCut_def SweepIterator_empty_def)
next
  case False
  with assms show ?thesis
    by (simp add: toSweep_end SweepIterator_empty_def sweepValid_def)
qed

lemma sweepExact_valid:
  assumes v: "sweepValid t it" and x: "sweepExact env t it t' it'"
    and c: "partitionIndex it' \<le> PartitionCount t'"
      "partitionIndex it' < PartitionCount t' \<longrightarrow>
          (\<exists>e'. atomsIter it' = Some e' \<and> \<not> e_removed e'
                \<and> e_cur e' < length (atoms (partitions t' ! partitionIndex it')))"
  shows "sweepValid t' it'"
proof -
  from x have n: "PartitionCount t' = PartitionCount t"
    and le: "partitionIndex it \<le> partitionIndex it'"
    by (simp_all add: sweepExact_def)
  have "atomsAddedWhileSweeping (partitions t' ! i) \<noteq> None"
    if i: "i < PartitionCount t" "partitionIndex it' \<le> i" for i
  proof -
    from x i(1) have "partExact env it it' i (partitions t ! i) (partitions t' ! i)"
      by (simp add: sweepExact_def)
    with i(2) le have "atomsAddedWhileSweeping (partitions t' ! i)
                         = atomsAddedWhileSweeping (partitions t ! i)"
      by (auto simp: partExact_def split: if_splits)
    moreover from v i le have "atomsAddedWhileSweeping (partitions t ! i) \<noteq> None"
      by (simp add: sweepValid_def)
    ultimately show ?thesis
      by simp
  qed
  with c n show ?thesis
    by (simp add: sweepValid_def)
qed

text \<open>One turn of the loop of \<open>sweepIncrementally\<close>.\<close>

lemma sweep_turn:
  assumes v: "sweepValid t it" and ne: "\<not> SweepIterator_empty t it"
    and f: "SweepIterator_front t it = Some atom"
    and r: "(if IsAboutToBeFinalized env atom then SweepIterator_removeFront t it
             else Some (t, it)) = Some (t1, it1)"
    and p: "SweepIterator_popFront env t1 it1 = Some (t2, it2)"
  shows "sweepExact env t it t2 it2 \<and> sweepValid t2 it2 \<and> Suc (toSweep t2 it2) = toSweep t it"
proof -
  let ?i = "partitionIndex it"
  from ne v have lt: "?i < PartitionCount t"
    by (simp add: sweepValid_def SweepIterator_empty_def)
  with v obtain e where e: "atomsIter it = Some e" "\<not> e_removed e"
    and cur: "e_cur e < length (atoms (partitions t ! ?i))"
    by (auto simp: sweepValid_def)
  from f lt e cur have atom: "atom = asPtrUnbarriered (atoms (partitions t ! ?i) ! e_cur e)"
    by (simp add: SweepIterator_front_def Enum_front_def)
  from examine_exact [OF lt e cur r [unfolded atom]] obtain e1 where
    it1: "atomsIter it1 = Some e1" "partitionIndex it1 = ?i"
    and e1: "\<not> e_removed (Enum_popFront e1)"
    and n1: "PartitionCount t1 = PartitionCount t"
    and c1: "e_cur (Enum_popFront e1) \<le> length (atoms (partitions t1 ! ?i))"
    and x1: "sweepExact env t it t1 (it1\<lparr>atomsIter := Some (Enum_popFront e1)\<rparr>)"
    and s1: "Suc (toSweep t1 (it1\<lparr>atomsIter := Some (Enum_popFront e1)\<rparr>)) = toSweep t it"
    by blast
  let ?it1' = "it1\<lparr>atomsIter := Some (Enum_popFront e1)\<rparr>"
  from p it1 have st: "settle env t1 ?it1' = Some (t2, it2)"
    by (simp add: SweepIterator_popFront_def)
  have "atomsIter ?it1' = Some (Enum_popFront e1)"
    "e_cur (Enum_popFront e1) \<le> length (atoms (partitions t1 ! partitionIndex ?it1'))"
    using c1 it1 by simp_all
  from settle_exact [OF st this(1) e1 this(2)]
  have x2: "sweepExact env t1 ?it1' t2 it2" and s2: "toSweep t2 it2 = toSweep t1 ?it1'"
    and c2: "partitionIndex it2 \<le> PartitionCount t2"
      "partitionIndex it2 < PartitionCount t2 \<longrightarrow>
          (\<exists>e'. atomsIter it2 = Some e' \<and> \<not> e_removed e'
                \<and> e_cur e' < length (atoms (partitions t2 ! partitionIndex it2)))"
    by blast+
  note x = sweepExact_trans [OF x1 x2 sweepValid_cut [OF v]]
  from x sweepExact_valid [OF v x c2] s1 s2 show ?thesis
    by simp
qed

lemma sweepIncrementally_exact:
  "sweepValid t it \<Longrightarrow> sweepIncrementally env t it b = Some (res, t', it', b') \<Longrightarrow>
     sweepExact env t it t' it' \<and> sweepValid t' it'
     \<and> res = (SweepIterator_empty t it \<or> int (toSweep t it) < counter b)
     \<and> (res \<longrightarrow> counter b' = counter b - int (toSweep t it))
     \<and> (\<not> res \<longrightarrow> toSweep t it = toSweep t' it' + nat (counter b - 1)
                  \<and> counter b' = min (counter b - 1) 0)"
proof (induction env t it b arbitrary: res t' it' b' rule: sweepIncrementally.induct)
  case (1 env t it b)
  note eq = sweepIncrementally.simps [of env t it b]
  note v = "1.prems"(1)
  note te = sweepValid_toSweep [OF v]
  show ?case
  proof (cases "SweepIterator_empty t it")
    case True
    with "1.prems" te show ?thesis
      by (auto simp: eq sweepExact_refl)
  next
    case ne: False
    with te have pos: "0 < toSweep t it"
      by simp
    show ?thesis
    proof (cases "isOverBudget (SliceBudget_step b)")
      case True
      then have "counter b \<le> 1"
        by (simp add: isOverBudget_def SliceBudget_step_def)
      with "1.prems" ne True pos show ?thesis
        by (auto simp: eq sweepExact_refl Let_def SliceBudget_step_def)
    next
      case nb: False
      then have c: "1 < counter b"
        by (simp add: isOverBudget_def SliceBudget_step_def)
      from "1.prems" ne nb obtain atom where f: "SweepIterator_front t it = Some atom"
        by (auto simp: eq Let_def split: option.splits)
      let ?r = "if IsAboutToBeFinalized env atom then SweepIterator_removeFront t it
                else Some (t, it)"
      from "1.prems" ne nb f obtain t1 it1 where r: "?r = Some (t1, it1)"
        by (cases ?r) (auto simp: eq Let_def)
      from "1.prems" ne nb f r obtain t2 it2 where
        p: "SweepIterator_popFront env t1 it1 = Some (t2, it2)"
        by (cases "SweepIterator_popFront env t1 it1") (auto simp: eq Let_def)
      from "1.prems" ne nb f r p
      have rec: "sweepIncrementally env t2 it2 (SliceBudget_step b) = Some (res, t', it', b')"
        by (simp add: eq Let_def)
      from sweep_turn [OF v ne f r p]
      have x1: "sweepExact env t it t2 it2" and v2: "sweepValid t2 it2"
        and s: "Suc (toSweep t2 it2) = toSweep t it"
        by simp_all
      note ih = "1.IH" [OF ne refl nb f r refl p refl v2 rec]
      from ih have x2: "sweepExact env t2 it2 t' it'" and v': "sweepValid t' it'"
        and res: "res = (SweepIterator_empty t2 it2
                          \<or> int (toSweep t2 it2) < counter (SliceBudget_step b))"
        and fin: "res \<longrightarrow> counter b' = counter (SliceBudget_step b) - int (toSweep t2 it2)"
        and more: "\<not> res \<longrightarrow> toSweep t2 it2 = toSweep t' it' + nat (counter (SliceBudget_step b) - 1)
                  \<and> counter b' = min (counter (SliceBudget_step b) - 1) 0"
        by blast+
      note x = sweepExact_trans [OF x1 x2 sweepValid_cut [OF v]]
      have cb: "counter (SliceBudget_step b) = counter b - 1"
        by (simp add: SliceBudget_step_def)
      from sweepValid_toSweep [OF v2] res s c
      have A: "res = (SweepIterator_empty t it \<or> int (toSweep t it) < counter b)"
        unfolding cb using ne by auto
      from fin s have B: "res \<longrightarrow> counter b' = counter b - int (toSweep t it)"
        unfolding cb by auto
      from more s c have C: "\<not> res \<longrightarrow> toSweep t it = toSweep t' it' + nat (counter b - 1)
                  \<and> counter b' = min (counter b - 1) 0"
        unfolding cb by auto
      from x v' A B C show ?thesis
        by blast
    qed
  qed
qed

text \<open>
  C4. Whenever \<open>sweepIncrementally\<close> returns on a valid iterator, each partition is in
  one of three states (\<open>sweepExact\<close>): as it was; or the one the iterator stands on, its
  secondary set untouched and its primary set swept up to the iterator and no further;
  or one the iterator left, and then its sweep was finished, every entry from where the
  call found the iterator on having been examined, and its primary set is what was
  kept followed by the whole former secondary set, which is null from then on. The call
  returns true exactly when the budget covers the entries that were left to examine
  (\<open>toSweep\<close>), and otherwise returns false after examining as many entries as the
  budget allows, one less than its units. A return of true means the iterator is
  exhausted, and then no partition has a secondary set. A call whose budget has at most
  one unit left returns false at once with table and iterator as they were. On a valid
  iterator, with memory for the merges, the call does return, with a valid iterator
  again.
\<close>

theorem sweepIncrementally_no_partial_merge:
  "(sweepIncrementally env t it b = Some (res, t', it', b') \<longrightarrow>
      sweepRel env t it t' it'
      \<and> (res \<longrightarrow> SweepIterator_empty t' it')
      \<and> (\<not> res \<longrightarrow> isOverBudget b' \<and> \<not> SweepIterator_empty t' it')
      \<and> (sweptBehind t it \<longrightarrow>
           sweptBehind t' it'
           \<and> (res \<longrightarrow> (\<forall>i < PartitionCount t'.
                          atomsAddedWhileSweeping (partitions t' ! i) = None))))
   \<and> (sweepValid t it \<and> sweepIncrementally env t it b = Some (res, t', it', b') \<longrightarrow>
        sweepExact env t it t' it'
        \<and> res = (SweepIterator_empty t it \<or> int (toSweep t it) < counter b)
        \<and> (\<not> res \<longrightarrow> toSweep t it = toSweep t' it' + nat (counter b - 1)))
   \<and> (\<not> SweepIterator_empty t it \<and> counter b \<le> 1 \<longrightarrow>
        sweepIncrementally env t it b = Some (False, t, it, SliceBudget_step b))
   \<and> (sweepValid t it \<and> (\<forall>a. putNewOk env a) \<longrightarrow>
        (\<exists>res t' it' b'. sweepIncrementally env t it b = Some (res, t', it', b')
           \<and> sweepValid t' it'))"
proof -
  have A: "sweepIncrementally env t it b = Some (res, t', it', b') \<longrightarrow>
      sweepRel env t it t' it'
      \<and> (res \<longrightarrow> SweepIterator_empty t' it')
      \<and> (\<not> res \<longrightarrow> isOverBudget b' \<and> \<not> SweepIterator_empty t' it')
      \<and> (sweptBehind t it \<longrightarrow>
           sweptBehind t' it'
           \<and> (res \<longrightarrow> (\<forall>i < PartitionCount t'.
                          atomsAddedWhileSweeping (partitions t' ! i) = None)))"
  proof
    assume s: "sweepIncrementally env t it b = Some (res, t', it', b')"
    note r = sweepIncrementally_rel [OF s]
    from r have rel: "sweepRel env t it t' it'"
      by simp
    have all: "\<forall>i < PartitionCount t'. atomsAddedWhileSweeping (partitions t' ! i) = None"
      if "sweptBehind t' it'" and res
    proof -
      from r that(2) have "partitionIndex it' = PartitionCount t'"
        by (simp add: SweepIterator_empty_def)
      with that(1) show ?thesis
        by (simp add: sweptBehind_def)
    qed
    from r rel sweptBehind_sweepRel [OF rel] all
    show "sweepRel env t it t' it'
      \<and> (res \<longrightarrow> SweepIterator_empty t' it')
      \<and> (\<not> res \<longrightarrow> isOverBudget b' \<and> \<not> SweepIterator_empty t' it')
      \<and> (sweptBehind t it \<longrightarrow>
           sweptBehind t' it'
           \<and> (res \<longrightarrow> (\<forall>i < PartitionCount t'.
                          atomsAddedWhileSweeping (partitions t' ! i) = None)))"
      by (cases res) simp_all
  qed
  have X: "sweepValid t it \<and> sweepIncrementally env t it b = Some (res, t', it', b') \<longrightarrow>
        sweepExact env t it t' it'
        \<and> res = (SweepIterator_empty t it \<or> int (toSweep t it) < counter b)
        \<and> (\<not> res \<longrightarrow> toSweep t it = toSweep t' it' + nat (counter b - 1))"
    using sweepIncrementally_exact [of t it env b res t' it' b'] by blast
  have B: "\<not> SweepIterator_empty t it \<and> counter b \<le> 1 \<longrightarrow>
        sweepIncrementally env t it b = Some (False, t, it, SliceBudget_step b)"
    by (simp add: sweepIncrementally.simps [of env t it b] Let_def isOverBudget_def
          SliceBudget_step_def)
  have C: "sweepValid t it \<and> (\<forall>a. putNewOk env a) \<longrightarrow>
        (\<exists>res t' it' b'. sweepIncrementally env t it b = Some (res, t', it', b')
           \<and> sweepValid t' it')"
    using sweepIncrementally_total by blast
  show ?thesis
    by (rule conjI [OF A conjI [OF X conjI [OF B C]]])
qed

theorem sweepIncrementally_no_partial_merge_witness:
  "sweepIncrementally exEnv exSweepingP exIter \<lparr>counter = 2\<rparr>
     = Some (False, exMid, exIter, \<lparr>counter = 0\<rparr>)
   \<and> sweepRel exEnv exSweepingP exIter exMid exIter
   \<and> isOverBudget \<lparr>counter = 0\<rparr> \<and> \<not> SweepIterator_empty exMid exIter
   \<and> sweptBehind exSweepingP exIter \<and> sweptBehind exMid exIter
   \<and> sweepValid exSweepingP exIter
   \<and> sweepExact exEnv exSweepingP exIter exMid exIter
   \<and> toSweep exSweepingP exIter = 2 \<and> toSweep exMid exIter = 1
   \<and> sweepIncrementally exEnv exMid exIter \<lparr>counter = 10\<rparr>
     = Some (True, exSwept, exIterEnd, \<lparr>counter = 9\<rparr>)
   \<and> sweepRel exEnv exMid exIter exSwept exIterEnd
   \<and> SweepIterator_empty exSwept exIterEnd
   \<and> map atomsAddedWhileSweeping (partitions exSwept) = [None, None]
   \<and> sweepValid exMid exIter
   \<and> sweepExact exEnv exMid exIter exSwept exIterEnd
   \<and> int (toSweep exMid exIter) < counter \<lparr>counter = 10\<rparr>
   \<and> \<not> SweepIterator_empty exSweepingP exIter
   \<and> sweepIncrementally exEnv exSweepingP exIter \<lparr>counter = 1\<rparr>
     = Some (False, exSweepingP, exIter, \<lparr>counter = 0\<rparr>)
   \<and> (\<forall>a. putNewOk exEnv a)
   \<and> (\<exists>res t' it' b'. sweepIncrementally exEnv exSweepingP exIter \<lparr>counter = 7\<rparr>
          = Some (res, t', it', b') \<and> sweepValid t' it')"
proof -
  have sb: "sweptBehind exSweepingP exIter"
    by (simp add: sweptBehind_def exIter_def)
  have ne: "\<not> SweepIterator_empty exSweepingP exIter" "\<not> SweepIterator_empty exMid exIter"
    by (simp_all add: SweepIterator_empty_def exIter_def exSweepingP_def exMid_def
          PartitionCount_def)
  have v: "sweepValid exSweepingP exIter" "\<forall>a. putNewOk exEnv a" "sweepValid exMid exIter"
    by (simp_all add: sweepValid_def exIter_def exSweepingP_def exMid_def PartitionCount_def
          Enum_init_def exEnv_def less_Suc_eq_0_disj)
  have ts: "toSweep exSweepingP exIter = 2" "toSweep exMid exIter = 1"
    by (simp_all add: toSweep_def sweepCut_def exIter_def exSweepingP_def exMid_def
          PartitionCount_def Enum_init_def upt_conv_Cons)
  note a = sweepIncrementally_no_partial_merge
    [where env = exEnv and t = exSweepingP and it = exIter and b = "\<lparr>counter = 2\<rparr>"
       and res = False and t' = exMid and it' = exIter and b' = "\<lparr>counter = 0\<rparr>"]
  note b = sweepIncrementally_no_partial_merge
    [where env = exEnv and t = exMid and it = exIter and b = "\<lparr>counter = 10\<rparr>"
       and res = True and t' = exSwept and it' = exIterEnd and b' = "\<lparr>counter = 9\<rparr>"]
  note c = sweepIncrementally_no_partial_merge
    [where env = exEnv and t = exSweepingP and it = exIter and b = "\<lparr>counter = 1\<rparr>"]
  note d = sweepIncrementally_no_partial_merge
    [where env = exEnv and t = exSweepingP and it = exIter and b = "\<lparr>counter = 7\<rparr>"]
  from a ex_slice1 sb
  have r1: "sweepRel exEnv exSweepingP exIter exMid exIter"
    "isOverBudget \<lparr>counter = 0\<rparr> \<and> \<not> SweepIterator_empty exMid exIter"
    "sweptBehind exMid exIter"
    by simp_all
  from a ex_slice1 v(1)
  have x1: "sweepExact exEnv exSweepingP exIter exMid exIter"
    by blast
  from b ex_slice2 r1(3)
  have r2: "sweepRel exEnv exMid exIter exSwept exIterEnd"
    "SweepIterator_empty exSwept exIterEnd"
    "\<forall>i < PartitionCount exSwept. atomsAddedWhileSweeping (partitions exSwept ! i) = None"
    by simp_all
  from b ex_slice2 v(3) ne(2)
  have x2: "sweepExact exEnv exMid exIter exSwept exIterEnd"
    "int (toSweep exMid exIter) < counter \<lparr>counter = 10\<rparr>"
    by blast+
  from c ne(1)
  have r3: "sweepIncrementally exEnv exSweepingP exIter \<lparr>counter = 1\<rparr>
     = Some (False, exSweepingP, exIter, \<lparr>counter = 0\<rparr>)"
    by (simp add: SliceBudget_step_def)
  from d v
  have r4: "\<exists>res t' it' b'. sweepIncrementally exEnv exSweepingP exIter \<lparr>counter = 7\<rparr>
          = Some (res, t', it', b') \<and> sweepValid t' it'"
    by blast
  have r5: "map atomsAddedWhileSweeping (partitions exSwept) = [None, None]"
    using r2(3) by (simp add: exSwept_def PartitionCount_def)
  from ex_slice1 r1 sb v(1) x1 ts ex_slice2 r2(1,2) r5 v(3) x2 ne(1) r3 v(2) r4 show ?thesis
    by blast
qed

section \<open>Canonicalization\<close>

lemma AtomSet_find_Nil [simp]: "AtomSet_find heap [] l = None"
  by (simp add: AtomSet_find_def)

lemma AtomSet_find_Cons:
  "AtomSet_find heap (e # es) l
     = (if match heap e l then Some (asPtrUnbarriered e) else AtomSet_find heap es l)"
  by (simp add: AtomSet_find_def option.map_comp comp_def)

lemma AtomSet_find_append:
  "AtomSet_find heap (s @ [x]) l
     = (case AtomSet_find heap s l of
          Some a \<Rightarrow> Some a
        | None \<Rightarrow> if match heap x l then Some (asPtrUnbarriered x) else None)"
  by (induction s) (simp_all add: AtomSet_find_Cons)

lemma AtomSet_find_cong:
  "map asPtrUnbarriered s' = map asPtrUnbarriered s \<Longrightarrow>
     (\<And>e e'. asPtrUnbarriered e' = asPtrUnbarriered e \<Longrightarrow> e \<in> set s \<Longrightarrow>
        match heap' e' l' = match heap e l) \<Longrightarrow>
     AtomSet_find heap' s' l' = AtomSet_find heap s l"
proof (induction s arbitrary: s')
  case Nil
  then show ?case by simp
next
  case (Cons e es)
  from Cons.prems(1) obtain e' es' where s': "s' = e' # es'"
    and p: "asPtrUnbarriered e' = asPtrUnbarriered e"
    and m: "map asPtrUnbarriered es' = map asPtrUnbarriered es"
    by (cases s') auto
  have "AtomSet_find heap' es' l' = AtomSet_find heap es l"
    using m Cons.prems(2) by (intro Cons.IH) auto
  moreover have "match heap' e' l' = match heap e l"
    using p Cons.prems(2) by simp
  ultimately show ?case
    using p by (simp add: s' AtomSet_find_Cons)
qed

lemma AtomSet_find_Some_mem:
  "AtomSet_find heap s l = Some a \<Longrightarrow>
     \<exists>e \<in> set s. asPtrUnbarriered e = a \<and> match heap e l"
  by (induction s) (auto simp: AtomSet_find_Cons split: if_splits)

lemma AtomSet_find_None:
  "(AtomSet_find heap s l = None) = (\<forall>e \<in> set s. \<not> match heap e l)"
  by (induction s) (auto simp: AtomSet_find_Cons)

lemma match_ptr_only:
  "asPtrUnbarriered e' = asPtrUnbarriered e \<Longrightarrow> match heap e' l = match heap e l"
  by (simp add: match_def Let_def)

lemma match_heapExt:
  assumes "heapExt heap heap'" and "asPtrUnbarriered e < length heap"
  shows "match heap' e l = match heap e l"
  using assms by (auto simp: match_def Let_def heapExt_def split: option.splits)

lemma match_chars_eq:
  "codeUnits ds = codeUnits cs \<Longrightarrow>
     match heap e (Lookup_chars env ds) = match heap e (Lookup_chars env cs)"
  by (simp add: match_chars_iff)

text \<open>What the lookup of a partition finds, from the atoms the two sets find.\<close>

lemma Partition_find_eq:
  "Partition_find env heap part l =
     (case atomsAddedWhileSweeping part of
        None \<Rightarrow> AtomSet_find heap (atoms part) l
      | Some added \<Rightarrow>
          (case AtomSet_find heap added l of
             Some a \<Rightarrow> Some a
           | None \<Rightarrow>
               (case AtomSet_find heap (atoms part) l of
                  Some a \<Rightarrow> if \<not> IsAboutToBeFinalized env a then Some a else None
                | None \<Rightarrow> None)))"
  by (auto simp: Partition_find_def Partition_lookupForAdd_def AtomSet_find_def AddPtr_entry_def
        option.map_comp comp_def split: option.splits)

lemma AtomSet_find_heapExt:
  assumes "heapExt heap heap'" and "setOk heap s"
  shows "AtomSet_find heap' s l = AtomSet_find heap s l"
proof (rule AtomSet_find_cong)
  show "map asPtrUnbarriered s = map asPtrUnbarriered s" ..
next
  fix e e' :: AtomStateEntry
  assume "asPtrUnbarriered e' = asPtrUnbarriered e" and "e \<in> set s"
  with assms show "match heap' e' l = match heap e l"
    using match_heapExt [of heap heap' e l] match_ptr_only [of e' e heap' l]
    by (auto simp: setOk_def)
qed

lemma AtomSet_find_setPinned:
  "AtomSet_find heap (Entry_setPinned s k) l = AtomSet_find heap s l"
proof (rule AtomSet_find_cong)
  show "map asPtrUnbarriered (Entry_setPinned s k) = map asPtrUnbarriered s"
    by (cases "k < length s")
       (auto simp: Entry_setPinned_def map_update list_eq_iff_nth_eq nth_list_update)
next
  fix e e' :: AtomStateEntry
  assume "asPtrUnbarriered e' = asPtrUnbarriered e"
  then show "match heap e' l = match heap e l"
    by (rule match_ptr_only)
qed

lemma Partition_find_heapExt:
  assumes "heapExt heap heap'" and "partOk heap part"
  shows "Partition_find env heap' part l = Partition_find env heap part l"
  using assms
  by (auto simp: Partition_find_eq partOk_def AtomSet_find_heapExt split: option.splits)

lemma Partition_find_setPinned:
  "Partition_find env heap (AddPtr_setPinned part p) l = Partition_find env heap part l"
  by (cases p; cases "atomsAddedWhileSweeping part")
     (simp_all add: Partition_find_eq AddPtr_setPinned_def AtomSet_find_setPinned
        split: option.splits)

lemma Partition_find_add_other:
  "\<not> match heap x l \<Longrightarrow>
     Partition_find env heap (Partition_add part x) l = Partition_find env heap part l"
  by (cases "atomsAddedWhileSweeping part")
     (auto simp: Partition_find_eq Partition_add_def AtomSet_add_def AtomSet_find_append
           split: option.splits)

lemma Partition_find_add_new:
  assumes "Partition_lookupForAdd env heap part l = None" and "match heap x l"
  shows "Partition_find env heap (Partition_add part x) l = Some (asPtrUnbarriered x)"
proof (cases "atomsAddedWhileSweeping part")
  case None
  with assms(1) have "AtomSet_find heap (atoms part) l = None"
    by (simp add: Partition_lookupForAdd_def AtomSet_find_def)
  with None assms(2) show ?thesis
    by (simp add: Partition_find_eq Partition_add_def AtomSet_add_def AtomSet_find_append)
next
  case (Some added)
  with assms(1) have "AtomSet_find heap added l = None"
    by (auto simp: Partition_lookupForAdd_def AtomSet_find_def split: option.splits)
  with Some assms(2) show ?thesis
    by (simp add: Partition_find_eq Partition_add_def AtomSet_add_def AtomSet_find_append)
qed

lemma Partition_find_found:
  assumes "Partition_find env heap part l = Some a" and "l_atom l = None"
  shows "a < length heap \<and> match heap \<lparr>asPtrUnbarriered = a, isPinned = b\<rparr> l"
proof -
  from assms(1) obtain s where "AtomSet_find heap s l = Some a"
    by (auto simp: Partition_find_eq split: option.splits if_splits)
  from AtomSet_find_Some_mem [OF this] obtain e where
    e: "asPtrUnbarriered e = a" "match heap e l"
    by blast
  from e assms(2) have "a < length heap"
    by (auto simp: match_def Let_def split: if_splits)
  moreover from e have "match heap \<lparr>asPtrUnbarriered = a, isPinned = b\<rparr> l"
    using match_ptr_only [of "\<lparr>asPtrUnbarriered = a, isPinned = b\<rparr>" e heap l] by simp
  ultimately show ?thesis ..
qed

lemma AtomSet_find_chars_eq:
  "codeUnits ds = codeUnits cs \<Longrightarrow>
     AtomSet_find heap s (Lookup_chars env ds) = AtomSet_find heap s (Lookup_chars env cs)"
  by (rule AtomSet_find_cong) (simp_all add: match_chars_iff)

lemma AtomsTable_find_chars_eq:
  assumes "codeUnits ds = codeUnits cs"
  shows "AtomsTable_find env heap t (Lookup_chars env ds)
           = AtomsTable_find env heap t (Lookup_chars env cs)"
proof -
  note l = AtomSet_find_chars_eq [OF assms]
  have i: "getPartitionIndex env (Lookup_chars env ds) = getPartitionIndex env (Lookup_chars env cs)"
    by (simp add: getPartitionIndex_def Lookup_chars_hash assms)
  show ?thesis
    unfolding AtomsTable_find_def Partition_find_eq l i ..
qed

lemma resolve_chars_eq:
  assumes "codeUnits ds = codeUnits cs"
  shows "resolve env cx ds = resolve env cx cs"
proof -
  note l = AtomSet_find_chars_eq [OF assms]
  note t = AtomsTable_find_chars_eq [OF assms]
  have n: "charsLength ds = charsLength cs"
    by (simp add: charsLength_codeUnits assms)
  show ?thesis
    unfolding resolve_def StaticStrings_lookup_def assms l t n Let_def ..
qed

lemma heapExt_refl: "heapExt heap heap"
  by (simp add: heapExt_def)


lemma heapExt_append: "heapExt heap (heap @ xs)"
  by (simp add: heapExt_def nth_append)

lemma heapExt_setPinned: "heapExt heap (heap[a := (heap ! a)\<lparr>a_pinned := True\<rparr>])"
  by (cases "a < length heap") (auto simp: heapExt_def nth_list_update)

lemma setOk_heapExt: "heapExt heap heap' \<Longrightarrow> setOk heap s \<Longrightarrow> setOk heap' s"
  by (force simp: heapExt_def setOk_def)

lemma partOk_heapExt: "heapExt heap heap' \<Longrightarrow> partOk heap part \<Longrightarrow> partOk heap' part"
  by (auto simp: partOk_def intro: setOk_heapExt split: option.splits)

lemma tableOk_heapExt: "heapExt heap heap' \<Longrightarrow> tableOk heap t \<Longrightarrow> tableOk heap' t"
  by (auto simp: tableOk_def intro: partOk_heapExt)

lemma setOk_setPinned: "setOk heap s \<Longrightarrow> setOk heap (Entry_setPinned s k)"
proof (cases "k < length s")
  case False
  assume "setOk heap s"
  with False show ?thesis
    by (simp add: Entry_setPinned_def list_update_beyond)
next
  case True
  assume ok: "setOk heap s"
  have "set (Entry_setPinned s k) \<subseteq> insert ((s ! k)\<lparr>isPinned := True\<rparr>) (set s)"
    unfolding Entry_setPinned_def by (rule set_update_subset_insert)
  moreover from ok True have "asPtrUnbarriered ((s ! k)\<lparr>isPinned := True\<rparr>) < length heap"
    by (simp add: setOk_def)
  ultimately show ?thesis
    using ok unfolding setOk_def by blast
qed

lemma partOk_setPinned: "partOk heap part \<Longrightarrow> partOk heap (AddPtr_setPinned part p)"
  by (cases p)
     (auto simp: partOk_def AddPtr_setPinned_def intro: setOk_setPinned split: option.splits)

lemma partOk_add:
  "partOk heap part \<Longrightarrow> asPtrUnbarriered x < length heap \<Longrightarrow> partOk heap (Partition_add part x)"
  by (auto simp: partOk_def Partition_add_def AtomSet_add_def setOk_def split: option.splits)

lemma tableOk_update:
  assumes "tableOk heap t" and "partOk heap part"
  shows "tableOk heap (t\<lparr>partitions := (partitions t)[i := part]\<rparr>)"
proof -
  have "set ((partitions t)[i := part]) \<subseteq> insert part (set (partitions t))"
    by (rule set_update_subset_insert)
  with assms show ?thesis
    unfolding tableOk_def by auto
qed

lemma tableOk_nth: "tableOk heap t \<Longrightarrow> i < PartitionCount t \<Longrightarrow> partOk heap (partitions t ! i)"
  by (simp add: tableOk_def PartitionCount_def)

lemma AllocateNewAtom_ok:
  assumes "AllocateNewAtom ok heap cs pin iv l = (Some atom, heap')"
  shows "atom = length heap \<and> (\<exists>x. heap' = heap @ [x] \<and> a_chars x = cs \<and> a_hash x = l_hash l)"
proof -
  let ?atom = "\<lparr>a_chars = cs, a_hash = l_hash l, a_pinned = False,
                a_permanent = False, a_index = None\<rparr>"
  let ?atom1 = "if pin = PinAtom then ?atom\<lparr>a_pinned := True\<rparr> else ?atom"
  let ?atom2 = "case iv of Some v \<Rightarrow> ?atom1\<lparr>a_index := Some v\<rparr> | None \<Rightarrow> ?atom1"
  from assms have ok
    by (simp add: AllocateNewAtom_def split: if_splits)
  with assms have "atom = length heap" "heap' = heap @ [?atom2]"
    by (simp_all add: AllocateNewAtom_def Let_def)
  moreover have "a_chars ?atom2 = cs" "a_hash ?atom2 = l_hash l"
    by (simp_all split: option.splits)
  ultimately show ?thesis
    by blast
qed

lemma AllocateNewAtom_fail:
  "AllocateNewAtom ok heap cs pin iv l = (None, heap') \<Longrightarrow> heap' = heap"
  by (auto simp: AllocateNewAtom_def Let_def split: if_splits)

lemma match_new_atom:
  assumes "a_chars x = cs" and "a_hash x = l_hash (Lookup_chars env cs)"
    and "asPtrUnbarriered e = length heap"
  shows "match (heap @ [x]) e (Lookup_chars env ds) = (codeUnits ds = codeUnits cs)"
proof -
  have "l_hash (Lookup_chars env cs) = hashUnits env (codeUnits cs)"
    by (simp add: Lookup_chars_hash)
  with assms show ?thesis
    unfolding match_chars_iff by auto
qed

lemma AtomsTable_find_heapExt:
  assumes "heapExt heap heap'" and "tableOk heap t"
  shows "AtomsTable_find env heap' t l = AtomsTable_find env heap t l"
  using assms Partition_find_heapExt [OF assms(1) tableOk_nth [OF assms(2)]]
  by (simp add: AtomsTable_find_def)

lemma AtomsTable_find_update:
  assumes "i < PartitionCount t"
    and "getPartitionIndex env l = i \<Longrightarrow>
           Partition_find env heap part l = Partition_find env heap (partitions t ! i) l"
  shows "AtomsTable_find env heap (t\<lparr>partitions := (partitions t)[i := part]\<rparr>) l
           = AtomsTable_find env heap t l"
  using assms
  by (cases "getPartitionIndex env l = i")
     (simp_all add: AtomsTable_find_def PartitionCount_def)

lemma shard_step:
  assumes ok: "tableOk heap t"
    and run: "AtomsTable_atomizeAndCopyChars env al heap t cs pin iv (Lookup_chars env cs)
                = (r, heap', t')"
  shows "heapExt heap heap' \<and> tableOk heap' t'
     \<and> (\<forall>ds. AtomsTable_find env heap t (Lookup_chars env ds) \<noteq> None
                \<or> codeUnits ds \<noteq> codeUnits cs \<longrightarrow>
              AtomsTable_find env heap' t' (Lookup_chars env ds)
                = AtomsTable_find env heap t (Lookup_chars env ds))
     \<and> (\<forall>a. r = Inr a \<longrightarrow>
              AtomsTable_find env heap' t' (Lookup_chars env cs) = Some a
              \<and> a < length heap' \<and> codeUnits (a_chars (heap' ! a)) = codeUnits cs)"
proof -
  let ?l = "Lookup_chars env cs"
  let ?i = "getPartitionIndex env ?l"
  let ?part = "partitions t ! ?i"
  show ?thesis
  proof (cases "?i < PartitionCount t")
    case False
    with run have "heap' = heap" "t' = t" "r = Inl Crash"
      by (auto simp: AtomsTable_atomizeAndCopyChars_def Let_def)
    with ok show ?thesis
      by (simp add: heapExt_refl)
  next
    case lt: True
    note pok = tableOk_nth [OF ok lt]
    show ?thesis
    proof (cases "Partition_lookupForAdd env heap ?part ?l")
      case (Some p)
      let ?a = "asPtrUnbarriered (AddPtr_entry ?part p)"
      from Some have f: "Partition_find env heap ?part ?l = Some ?a"
        by (simp add: Partition_find_def)
      have la: "l_atom ?l = None"
        by (simp add: Lookup_chars_hash)
      from Partition_find_found [OF f la, of False]
      have a: "?a < length heap" and m: "codeUnits (a_chars (heap ! ?a)) = codeUnits cs"
        by (simp_all add: match_chars_iff)
      from f lt have tf: "AtomsTable_find env heap t ?l = Some ?a"
        by (simp add: AtomsTable_find_def)
      show ?thesis
      proof (cases "pin = PinAtom \<and> \<not> a_pinned (heap ! ?a)")
        case False
        with run lt Some have "heap' = heap" "t' = t" "r = Inr ?a"
          by (auto simp: AtomsTable_atomizeAndCopyChars_def Let_def)
        with ok tf a m show ?thesis
          by (simp add: heapExt_refl)
      next
        case True
        with run lt Some
        have h': "heap' = heap[?a := (heap ! ?a)\<lparr>a_pinned := True\<rparr>]"
          and t': "t' = t\<lparr>partitions := (partitions t)[?i := AddPtr_setPinned ?part p]\<rparr>"
          and r: "r = Inr ?a"
          by (auto simp: AtomsTable_atomizeAndCopyChars_def Let_def)
        have ext: "heapExt heap heap'"
          unfolding h' by (rule heapExt_setPinned)
        have ok': "tableOk heap' t'"
          unfolding t'
          by (intro tableOk_update tableOk_heapExt [OF ext ok] partOk_setPinned
                partOk_heapExt [OF ext pok])
        have same: "AtomsTable_find env heap' t' l = AtomsTable_find env heap t l" for l
        proof -
          have "AtomsTable_find env heap' t' l = AtomsTable_find env heap' t l"
            unfolding t'
            by (rule AtomsTable_find_update [OF lt]) (simp add: Partition_find_setPinned)
          also have "\<dots> = AtomsTable_find env heap t l"
            by (rule AtomsTable_find_heapExt [OF ext ok])
          finally show ?thesis .
        qed
        have "?a < length heap'" "codeUnits (a_chars (heap' ! ?a)) = codeUnits cs"
          using a m ext by (auto simp: heapExt_def)
        with ext ok' same tf r show ?thesis
          by simp
      qed
    next
      case None
      then have nf: "Partition_find env heap ?part ?l = None"
        by (simp add: Partition_find_def)
      with lt have tnf: "AtomsTable_find env heap t ?l = None"
        by (simp add: AtomsTable_find_def)
      have other: "codeUnits ds \<noteq> codeUnits cs"
        if "AtomsTable_find env heap t (Lookup_chars env ds) \<noteq> None
            \<or> codeUnits ds \<noteq> codeUnits cs" for ds
        using that tnf AtomsTable_find_chars_eq [of ds cs env heap t] by auto
      show ?thesis
      proof (cases "AllocateNewAtom (newStringOk al) heap cs pin iv ?l")
        case (Pair res h1)
        show ?thesis
        proof (cases res)
          case None
          with Pair AllocateNewAtom_fail have "h1 = heap"
            by blast
          with run lt \<open>Partition_lookupForAdd env heap ?part ?l = None\<close> Pair None
          have "heap' = heap" "t' = t" "r = Inl OutOfMemory"
            by (auto simp: AtomsTable_atomizeAndCopyChars_def Let_def)
          with ok show ?thesis
            by (simp add: heapExt_refl)
        next
          case (Some atom)
          with Pair AllocateNewAtom_ok [of "newStringOk al" heap cs pin iv ?l atom h1]
          obtain x where atom: "atom = length heap" and h1: "h1 = heap @ [x]"
            and x: "a_chars x = cs" "a_hash x = l_hash ?l"
            by blast
          have ext: "heapExt heap h1"
            unfolding h1 by (rule heapExt_append)
          show ?thesis
          proof (cases "setAddOk al")
            case False
            with run lt \<open>Partition_lookupForAdd env heap ?part ?l = None\<close> Pair Some
            have "heap' = h1" "t' = t" "r = Inl OutOfMemory"
              by (auto simp: AtomsTable_atomizeAndCopyChars_def Let_def)
            with ok ext show ?thesis
              by (simp add: tableOk_heapExt AtomsTable_find_heapExt)
          next
            case True
            let ?e = "\<lparr>asPtrUnbarriered = atom, isPinned = (pin = PinAtom)\<rparr>"
            from True run lt \<open>Partition_lookupForAdd env heap ?part ?l = None\<close> Pair Some
            have h': "heap' = h1"
              and t': "t' = t\<lparr>partitions := (partitions t)[?i := Partition_add ?part ?e]\<rparr>"
              and r: "r = Inr atom"
              by (auto simp: AtomsTable_atomizeAndCopyChars_def Let_def)
            have m: "match h1 ?e (Lookup_chars env ds) = (codeUnits ds = codeUnits cs)" for ds
              unfolding h1 by (rule match_new_atom [OF x]) (simp add: atom)
            have ok': "tableOk heap' t'"
              unfolding t' h'
              by (intro tableOk_update tableOk_heapExt [OF ext ok] partOk_add
                    partOk_heapExt [OF ext pok])
                 (simp add: h1 atom)
            have st: "AtomsTable_find env heap' t' (Lookup_chars env ds)
                        = AtomsTable_find env heap t (Lookup_chars env ds)"
              if "codeUnits ds \<noteq> codeUnits cs" for ds
            proof -
              have "AtomsTable_find env h1 t' (Lookup_chars env ds)
                      = AtomsTable_find env h1 t (Lookup_chars env ds)"
                unfolding t'
                by (rule AtomsTable_find_update [OF lt])
                   (simp add: Partition_find_add_other m that)
              also have "\<dots> = AtomsTable_find env heap t (Lookup_chars env ds)"
                by (rule AtomsTable_find_heapExt [OF ext ok])
              finally show ?thesis
                by (simp add: h')
            qed
            have "Partition_lookupForAdd env h1 ?part ?l = None"
              using None Partition_find_heapExt [OF ext pok, of env ?l]
              by (simp add: Partition_find_def)
            from Partition_find_add_new [OF this, of ?e] m [of cs]
            have "Partition_find env h1 (Partition_add ?part ?e) ?l = Some atom"
              by simp
            with lt have new: "AtomsTable_find env heap' t' ?l = Some atom"
              by (simp add: AtomsTable_find_def t' h' PartitionCount_def)
            have "atom < length heap'" "codeUnits (a_chars (heap' ! atom)) = codeUnits cs"
              by (simp_all add: h' h1 atom x)
            with ext ok' st other new r show ?thesis
              by (auto simp: h')
          qed
        qed
      qed
    qed
  qed
qed

lemma AtomSet_find_lookup:
  "AtomSet_lookup heap s l = Some k \<Longrightarrow> AtomSet_find heap s l = Some (asPtrUnbarriered (s ! k))"
  "AtomSet_lookup heap s l = None \<Longrightarrow> AtomSet_find heap s l = None"
  by (simp_all add: AtomSet_find_def)

lemma AtomSet_find_valid:
  assumes "AtomSet_find heap s (Lookup_chars env cs) = Some a"
  shows "a < length heap \<and> codeUnits (a_chars (heap ! a)) = codeUnits cs"
proof -
  from AtomSet_find_Some_mem [OF assms] obtain e where
    "asPtrUnbarriered e = a" "match heap e (Lookup_chars env cs)"
    by blast
  then show ?thesis
    by (simp add: match_chars_iff)
qed

lemma atomCache_add_frame:
  "store (atomCache_add cx a) = store cx"
  "staticOk (atomCache_add cx a) = staticOk cx"
  "setsOk (atomCache_add cx a) = setsOk cx"
  "resolve env (atomCache_add cx a) ds = resolve env cx ds"
  by (simp_all add: atomCache_add_def staticOk_def setsOk_def resolve_def Let_def
        cong: option.case_cong)

lemma atomStep_same:
  assumes "staticOk cx" and "setsOk cx"
    and "\<And>a. r = Inr a \<Longrightarrow> resolve env cx cs = Some a \<and> a < length (store cx)
                  \<and> codeUnits (a_chars (store cx ! a)) = codeUnits cs"
  shows "atomStep env cs r cx cx"
  using assms by (simp add: atomStep_def heapExt_refl)

lemma atomStep_same_error:
  "staticOk cx \<Longrightarrow> setsOk cx \<Longrightarrow> atomStep env cs (Inl e) cx cx"
  by (simp add: atomStep_def heapExt_refl)

lemma atomStep_cacheResult:
  assumes st: "atomStep env cs (Inr atom) cx cx1" and z: "zone cx1 = zone cx"
    and uc: "uc \<Longrightarrow> zone cx \<noteq> None"
    and res: "cacheResult al uc atom cx1 = (r, cx')"
  shows "atomStep env cs r cx cx'"
proof (cases "uc \<and> \<not> cacheAddOk al")
  case True
  with res have "r = Inl OutOfMemory" "cx' = cx1"
    by (simp_all add: cacheResult_def)
  with st z show ?thesis
    by (simp add: atomStep_def)
next
  case False
  show ?thesis
  proof (cases uc)
    case False
    with res have "r = Inr atom" "cx' = cx1"
      by (simp_all add: cacheResult_def)
    with st show ?thesis by simp
  next
    case True
    with False res have r: "r = Inr atom" and cx': "cx' = atomCache_add cx1 atom"
      by (simp_all add: cacheResult_def)
    from uc [OF True] obtain zz where zz: "zone cx = Some zz"
      by auto
    with z have "zone cx' = Some (zz\<lparr>atomCache := atomCache zz
                     @ [\<lparr>asPtrUnbarriered = atom, isPinned = False\<rparr>]\<rparr>)"
      by (simp add: cx' atomCache_add_def AtomSet_add_def)
    with st r zz show ?thesis
      by (simp add: atomStep_def cx' atomCache_add_frame)
  qed
qed

lemma AtomizeAndCopyChars_tail:
  assumes "StaticStrings_lookup (staticStrings cx) cs = None"
    and "zonePtr = (case zone cx of
                      Some z \<Rightarrow>
                        if pin = DoNotPinAtom
                        then Some (AtomSet_lookup (store cx) (atomCache z) (Lookup_chars env cs))
                        else None
                    | None \<Rightarrow> None)"
    and "\<And>k. zonePtr \<noteq> Some (Some k)"
  shows "AtomizeAndCopyChars env al cx cs pin iv = atomizeTail env al cx zonePtr cs pin iv"
proof -
  have z: "zonePtr = None \<or> zonePtr = Some None"
    using assms(3) by (cases zonePtr) auto
  have "AtomizeAndCopyChars env al cx cs pin iv
          = (case zonePtr of
               Some (Some k) \<Rightarrow> (Inr (asPtrUnbarriered (atomCache (the (zone cx)) ! k)), cx)
             | _ \<Rightarrow>
                  (case permanentAtoms cx of
                     None \<Rightarrow>
                       PermanentlyAtomizeAndCopyChars env al cx zonePtr cs iv (Lookup_chars env cs)
                   | Some perm \<Rightarrow>
                       (case AtomSet_lookup (store cx) perm (Lookup_chars env cs) of
                          Some pp \<Rightarrow>
                            (let atom = asPtrUnbarriered (perm ! pp) in
                             if zonePtr \<noteq> None \<and> \<not> cacheAddOk al then (Inl OutOfMemory, cx)
                             else if zonePtr \<noteq> None then (Inr atom, atomCache_add cx atom)
                             else (Inr atom, cx))
                        | None \<Rightarrow>
                            if \<not> validateLength env (charsLength cs)
                            then (Inl AllocationOverflow, cx)
                            else (case rt_atoms cx of
                                    None \<Rightarrow> (Inl Crash, cx)
                                  | Some t \<Rightarrow>
                                      (case AtomsTable_atomizeAndCopyChars env al (store cx) t
                                              cs pin iv (Lookup_chars env cs) of
                                         (Inl e, heap', t') \<Rightarrow>
                                           (Inl e, cx\<lparr>store := heap', rt_atoms := Some t'\<rparr>)
                                       | (Inr atom, heap', t') \<Rightarrow>
                                           (let cx' = cx\<lparr>store := heap', rt_atoms := Some t'\<rparr>
                                            in if zonePtr \<noteq> None \<and> \<not> cacheAddOk al
                                               then (Inl OutOfMemory, cx')
                                               else if zonePtr \<noteq> None
                                                    then (Inr atom, atomCache_add cx' atom)
                                                    else (Inr atom, cx')))))))"
    unfolding AtomizeAndCopyChars_def assms(1) option.case Let_def assms(2) [symmetric] ..
  also have "\<dots> = atomizeTail env al cx zonePtr cs pin iv"
    using z unfolding atomizeTail_def cacheResult_def Let_def by auto
  finally show ?thesis .
qed

lemma resolve_running:
  "permanentAtoms cx = Some perm \<Longrightarrow>
     resolve env cx ds =
       (case StaticStrings_lookup (staticStrings cx) ds of
          Some s \<Rightarrow> Some s
        | None \<Rightarrow>
            (case AtomSet_find (store cx) perm (Lookup_chars env ds) of
               Some a \<Rightarrow> Some a
             | None \<Rightarrow>
                 if \<not> validateLength env (charsLength ds) then None
                 else (case rt_atoms cx of
                         None \<Rightarrow> None
                       | Some t \<Rightarrow> AtomsTable_find env (store cx) t (Lookup_chars env ds))))"
  by (auto simp: resolve_def Let_def split: option.splits)

lemma resolve_boot:
  "permanentAtoms cx = None \<Longrightarrow>
     resolve env cx ds =
       (case StaticStrings_lookup (staticStrings cx) ds of
          Some s \<Rightarrow> Some s
        | None \<Rightarrow>
            (case permanentAtomsDuringInit cx of
               None \<Rightarrow> None
             | Some staging \<Rightarrow> AtomSet_find (store cx) staging (Lookup_chars env ds)))"
  by (auto simp: resolve_def Let_def split: option.splits)

lemma staticOk_heapExt:
  assumes "staticOk cx" and "heapExt (store cx) (store cx')"
    and "staticStrings cx' = staticStrings cx"
  shows "staticOk cx'"
  using assms unfolding staticOk_def heapExt_def by fastforce

lemma staticOk_lookup:
  assumes "staticOk cx" and "StaticStrings_lookup (staticStrings cx) cs = Some s"
  shows "s < length (store cx) \<and> codeUnits (a_chars (store cx ! s)) = codeUnits cs"
proof -
  from assms(2) have "(codeUnits cs, s) \<in> set (staticStrings cx)"
    by (simp add: StaticStrings_lookup_def map_of_SomeD)
  with assms(1) show ?thesis
    unfolding staticOk_def by blast
qed

lemma atomStep_shard:
  assumes so: "staticOk cx" and se: "setsOk cx"
    and pa: "permanentAtoms cx = Some perm" and ta: "rt_atoms cx = Some t"
    and sl: "StaticStrings_lookup (staticStrings cx) cs = None"
    and pl: "AtomSet_find (store cx) perm (Lookup_chars env cs) = None"
    and vl: "validateLength env (charsLength cs)"
    and run: "AtomsTable_atomizeAndCopyChars env al (store cx) t cs pin iv (Lookup_chars env cs)
                = (r, heap', t')"
  shows "atomStep env cs r cx (cx\<lparr>store := heap', rt_atoms := Some t'\<rparr>)"
proof -
  let ?cx' = "cx\<lparr>store := heap', rt_atoms := Some t'\<rparr>"
  from se pa ta have pok: "setOk (store cx) perm" and tok: "tableOk (store cx) t"
    by (simp_all add: setsOk_def)
  from shard_step [OF tok run]
  have ext: "heapExt (store cx) heap'" and tok': "tableOk heap' t'"
    and stab: "\<And>ds. AtomsTable_find env (store cx) t (Lookup_chars env ds) \<noteq> None
                  \<or> codeUnits ds \<noteq> codeUnits cs \<Longrightarrow>
                AtomsTable_find env heap' t' (Lookup_chars env ds)
                  = AtomsTable_find env (store cx) t (Lookup_chars env ds)"
    and res: "\<And>a. r = Inr a \<Longrightarrow>
                AtomsTable_find env heap' t' (Lookup_chars env cs) = Some a
                \<and> a < length heap' \<and> codeUnits (a_chars (heap' ! a)) = codeUnits cs"
    by blast+
  have pf: "AtomSet_find heap' perm l = AtomSet_find (store cx) perm l" for l
    by (rule AtomSet_find_heapExt [OF ext pok])
  have r': "resolve env ?cx' ds =
       (case StaticStrings_lookup (staticStrings cx) ds of
          Some s \<Rightarrow> Some s
        | None \<Rightarrow>
            (case AtomSet_find (store cx) perm (Lookup_chars env ds) of
               Some a \<Rightarrow> Some a
             | None \<Rightarrow>
                 if \<not> validateLength env (charsLength ds) then None
                 else AtomsTable_find env heap' t' (Lookup_chars env ds)))" for ds
    using pa by (auto simp: resolve_running [of ?cx' perm] pf split: option.splits)
  have r0: "resolve env cx ds =
       (case StaticStrings_lookup (staticStrings cx) ds of
          Some s \<Rightarrow> Some s
        | None \<Rightarrow>
            (case AtomSet_find (store cx) perm (Lookup_chars env ds) of
               Some a \<Rightarrow> Some a
             | None \<Rightarrow>
                 if \<not> validateLength env (charsLength ds) then None
                 else AtomsTable_find env (store cx) t (Lookup_chars env ds)))" for ds
    using pa ta by (auto simp: resolve_running [of cx perm] split: option.splits)
  have st: "resolve env ?cx' ds = Some a" if "resolve env cx ds = Some a" for ds a
  proof (cases "AtomsTable_find env (store cx) t (Lookup_chars env ds) = None")
    case False
    from stab [of ds] False that show ?thesis
      unfolding r' r0 by (auto split: option.splits if_splits)
  next
    case True
    with that show ?thesis
      unfolding r' r0 by (auto split: option.splits if_splits)
  qed
  have rs: "resolve env ?cx' cs = Some a \<and> a < length (store ?cx')
              \<and> codeUnits (a_chars (store ?cx' ! a)) = codeUnits cs" if "r = Inr a" for a
    using res [OF that] sl pl vl unfolding r' by (auto split: option.splits)
  have so': "staticOk ?cx'"
    by (rule staticOk_heapExt [OF so]) (simp_all add: ext)
  have se': "setsOk ?cx'"
    using se pa ext tok'
    by (auto simp: setsOk_def intro: setOk_heapExt split: option.splits)
  show ?thesis
    unfolding atomStep_def using ext so' se' st rs by simp
qed

lemma resolve_heapExt:
  assumes "setsOk cx" and "heapExt (store cx) heap'"
  shows "resolve env (cx\<lparr>store := heap'\<rparr>) ds = resolve env cx ds"
  using assms
  by (auto simp: resolve_def Let_def setsOk_def AtomSet_find_heapExt AtomsTable_find_heapExt
        split: option.splits)

lemma setsOk_heapExt:
  assumes "setsOk cx" and "heapExt (store cx) heap'"
  shows "setsOk (cx\<lparr>store := heap'\<rparr>)"
  using assms
  by (auto simp: setsOk_def intro: setOk_heapExt tableOk_heapExt split: option.splits)

lemma atomStep_store:
  assumes so: "staticOk cx" and se: "setsOk cx" and ext: "heapExt (store cx) heap'"
  shows "atomStep env cs (Inl e) cx (cx\<lparr>store := heap'\<rparr>)"
proof -
  have "staticOk (cx\<lparr>store := heap'\<rparr>)"
    by (rule staticOk_heapExt [OF so]) (simp_all add: ext)
  with setsOk_heapExt [OF se ext] ext show ?thesis
    by (simp add: atomStep_def resolve_heapExt [OF se ext])
qed

lemma atomStep_boot:
  assumes so: "staticOk cx" and se: "setsOk cx"
    and pa: "permanentAtoms cx = None"
    and sl: "StaticStrings_lookup (staticStrings cx) cs = None"
    and zp: "zonePtr \<noteq> None \<Longrightarrow> zone cx \<noteq> None"
    and run: "PermanentlyAtomizeAndCopyChars env al cx zonePtr cs iv (Lookup_chars env cs)
                = (r, cx')"
  shows "atomStep env cs r cx cx'"
proof (cases "permanentAtomsDuringInit cx")
  case None
  with run have "r = Inl Crash" "cx' = cx"
    by (simp_all add: PermanentlyAtomizeAndCopyChars_def)
  with so se show ?thesis
    by (simp add: atomStep_same_error)
next
  case (Some staging)
  let ?l = "Lookup_chars env cs"
  from se Some have sok: "setOk (store cx) staging"
    by (simp add: setsOk_def)
  show ?thesis
  proof (cases "AtomSet_lookup (store cx) staging ?l")
    case hit: (Some k)
    with run Some have r: "r = Inr (asPtrUnbarriered (staging ! k))" and cx': "cx' = cx"
      by (simp_all add: PermanentlyAtomizeAndCopyChars_def)
    from AtomSet_find_lookup(1) [OF hit]
    have f: "AtomSet_find (store cx) staging ?l = Some (asPtrUnbarriered (staging ! k))" .
    with pa sl Some have "resolve env cx cs = Some (asPtrUnbarriered (staging ! k))"
      by (simp add: resolve_boot)
    with AtomSet_find_valid [OF f] so se r cx' show ?thesis
      by (auto intro!: atomStep_same)
  next
    case miss: None
    from AtomSet_find_lookup(2) [OF miss]
    have nf: "AtomSet_find (store cx) staging ?l = None" .
    show ?thesis
    proof (cases "AllocateNewAtom (newStringOk al) (store cx) cs DoNotPinAtom iv ?l")
      case (Pair res h1)
      show ?thesis
      proof (cases res)
        case None
        with Pair AllocateNewAtom_fail have "h1 = store cx"
          by blast
        with run Some miss Pair None have "r = Inl OutOfMemory" "cx' = cx"
          by (simp_all add: PermanentlyAtomizeAndCopyChars_def)
        with so se show ?thesis
          by (simp add: atomStep_same_error)
      next
        case alloc: (Some atom)
        with Pair AllocateNewAtom_ok [of "newStringOk al" "store cx" cs DoNotPinAtom iv ?l atom h1]
        obtain x where atom: "atom = length (store cx)" and h1: "h1 = store cx @ [x]"
          and x: "a_chars x = cs" "a_hash x = l_hash ?l"
          by blast
        let ?h2 = "h1[atom := morphIntoPermanentAtom (h1 ! atom)]"
        let ?e = "\<lparr>asPtrUnbarriered = atom, isPinned = True\<rparr>"
        have h2: "?h2 = store cx @ [morphIntoPermanentAtom x]"
          by (simp add: h1 atom)
        have ext: "heapExt (store cx) ?h2"
          unfolding h2 by (rule heapExt_append)
        show ?thesis
        proof (cases "setAddOk al")
          case False
          with run Some miss Pair alloc
          have "r = Inl OutOfMemory" "cx' = cx\<lparr>store := ?h2\<rparr>"
            by (simp_all add: PermanentlyAtomizeAndCopyChars_def Let_def)
          with atomStep_store [OF so se ext] show ?thesis
            by simp
        next
          case True
          let ?cx1 = "cx\<lparr>store := ?h2,
                       permanentAtomsDuringInit := Some (AtomSet_add staging ?e)\<rparr>"
          from True run Some miss Pair alloc
          have res: "cacheResult al (zonePtr \<noteq> None) atom ?cx1 = (r, cx')"
            by (auto simp: PermanentlyAtomizeAndCopyChars_def Let_def cacheResult_def
                  split: if_splits)
          have m: "match ?h2 ?e (Lookup_chars env ds) = (codeUnits ds = codeUnits cs)" for ds
            unfolding h2
            by (rule match_new_atom) (simp_all add: morphIntoPermanentAtom_def x atom)
          have sf: "AtomSet_find ?h2 staging l = AtomSet_find (store cx) staging l" for l
            by (rule AtomSet_find_heapExt [OF ext sok])
          have r1: "resolve env ?cx1 ds =
             (case StaticStrings_lookup (staticStrings cx) ds of
                Some s \<Rightarrow> Some s
              | None \<Rightarrow>
                  (case AtomSet_find (store cx) staging (Lookup_chars env ds) of
                     Some a \<Rightarrow> Some a
                   | None \<Rightarrow> if codeUnits ds = codeUnits cs then Some atom else None))" for ds
          proof -
            have "permanentAtoms ?cx1 = None"
              using pa by simp
            from resolve_boot [OF this, of env ds] show ?thesis
              by (auto simp: AtomSet_add_def AtomSet_find_append sf m split: option.splits)
          qed
          have r0: "resolve env cx ds =
             (case StaticStrings_lookup (staticStrings cx) ds of
                Some s \<Rightarrow> Some s
              | None \<Rightarrow> AtomSet_find (store cx) staging (Lookup_chars env ds))" for ds
            using pa Some by (auto simp: resolve_boot [of cx] split: option.splits)
          have st: "resolve env ?cx1 ds = Some a" if "resolve env cx ds = Some a" for ds a
            using that unfolding r1 r0 by (auto split: option.splits)
          have rs: "resolve env ?cx1 cs = Some atom"
            unfolding r1 using sl nf by simp
          have so1: "staticOk ?cx1"
            by (rule staticOk_heapExt [OF so]) (simp_all add: ext)
          have "setOk ?h2 (AtomSet_add staging ?e)"
            using setOk_heapExt [OF ext sok]
            by (simp add: setOk_def AtomSet_add_def h1 atom)
          with setsOk_heapExt [OF se ext] have se1: "setsOk ?cx1"
            by (auto simp: setsOk_def split: option.splits)
          have "atom < length ?h2" "codeUnits (a_chars (?h2 ! atom)) = codeUnits cs"
            unfolding h2 by (simp_all add: atom morphIntoPermanentAtom_def x)
          with ext so1 se1 st rs have "atomStep env cs (Inr atom) cx ?cx1"
            by (simp add: atomStep_def)
          from atomStep_cacheResult [OF this _ zp res] show ?thesis
            by simp
        qed
      qed
    qed
  qed
qed

lemma atomStep_tail:
  assumes so: "staticOk cx" and se: "setsOk cx"
    and sl: "StaticStrings_lookup (staticStrings cx) cs = None"
    and zp: "zonePtr \<noteq> None \<Longrightarrow> zone cx \<noteq> None"
    and run: "atomizeTail env al cx zonePtr cs pin iv = (r, cx')"
  shows "atomStep env cs r cx cx'"
proof (cases "permanentAtoms cx")
  case None
  with run have "PermanentlyAtomizeAndCopyChars env al cx zonePtr cs iv (Lookup_chars env cs)
                   = (r, cx')"
    by (simp add: atomizeTail_def)
  from atomStep_boot [OF so se None sl zp this] show ?thesis .
next
  case (Some perm)
  let ?l = "Lookup_chars env cs"
  show ?thesis
  proof (cases "AtomSet_lookup (store cx) perm ?l")
    case hit: (Some pp)
    let ?a = "asPtrUnbarriered (perm ! pp)"
    from run Some hit have res: "cacheResult al (zonePtr \<noteq> None) ?a cx = (r, cx')"
      by (simp add: atomizeTail_def)
    from AtomSet_find_lookup(1) [OF hit]
    have f: "AtomSet_find (store cx) perm ?l = Some ?a" .
    with sl Some have "resolve env cx cs = Some ?a"
      by (simp add: resolve_running [of cx perm])
    with AtomSet_find_valid [OF f] so se have "atomStep env cs (Inr ?a) cx cx"
      by (auto intro!: atomStep_same)
    from atomStep_cacheResult [OF this refl zp res] show ?thesis .
  next
    case miss: None
    from AtomSet_find_lookup(2) [OF miss]
    have nf: "AtomSet_find (store cx) perm ?l = None" .
    show ?thesis
    proof (cases "validateLength env (charsLength cs)")
      case False
      with run Some miss have "r = Inl AllocationOverflow" "cx' = cx"
        by (simp_all add: atomizeTail_def)
      with so se show ?thesis
        by (simp add: atomStep_same_error)
    next
      case vl: True
      show ?thesis
      proof (cases "rt_atoms cx")
        case None
        with run Some miss vl have "r = Inl Crash" "cx' = cx"
          by (simp_all add: atomizeTail_def)
        with so se show ?thesis
          by (simp add: atomStep_same_error)
      next
        case tbl: (Some t)
        obtain r0 heap' t' where
          sh: "AtomsTable_atomizeAndCopyChars env al (store cx) t cs pin iv ?l = (r0, heap', t')"
          by (metis prod_cases3)
        let ?cx1 = "cx\<lparr>store := heap', rt_atoms := Some t'\<rparr>"
        note st = atomStep_shard [OF so se Some tbl sl nf vl sh]
        show ?thesis
        proof (cases r0)
          case (Inl e)
          with run Some miss vl tbl sh have "r = Inl e" "cx' = ?cx1"
            by (simp_all add: atomizeTail_def)
          with st Inl show ?thesis by simp
        next
          case (Inr atom)
          with run Some miss vl tbl sh
          have res: "cacheResult al (zonePtr \<noteq> None) atom ?cx1 = (r, cx')"
            by (simp add: atomizeTail_def)
          from st Inr have "atomStep env cs (Inr atom) cx ?cx1"
            by simp
          from atomStep_cacheResult [OF this _ zp res] show ?thesis
            by simp
        qed
      qed
    qed
  qed
qed

lemma atomize_step:
  assumes inv: "atomsInv env cx"
    and run: "AtomizeAndCopyChars env al cx cs pin iv = (r, cx')"
  shows "atomStep env cs r cx cx'"
proof -
  from inv have so: "staticOk cx" and se: "setsOk cx" and co: "cacheOk env cx"
    by (simp_all add: atomsInv_def)
  let ?l = "Lookup_chars env cs"
  show ?thesis
  proof (cases "StaticStrings_lookup (staticStrings cx) cs")
    case (Some s)
    with run have r: "r = Inr s" "cx' = cx"
      by (simp_all add: AtomizeAndCopyChars_def)
    from Some have "resolve env cx cs = Some s"
      by (simp add: resolve_def)
    with staticOk_lookup [OF so Some] so se r show ?thesis
      by (auto intro!: atomStep_same)
  next
    case sl: None
    define zonePtr where "zonePtr =
      (case zone cx of
         Some z \<Rightarrow>
           if pin = DoNotPinAtom then Some (AtomSet_lookup (store cx) (atomCache z) ?l) else None
       | None \<Rightarrow> None)"
    have zp: "zone cx \<noteq> None" if "zonePtr \<noteq> None"
      using that by (auto simp: zonePtr_def split: option.splits)
    show ?thesis
    proof (cases "\<exists>k. zonePtr = Some (Some k)")
      case False
      then have "\<And>k. zonePtr \<noteq> Some (Some k)"
        by simp
      from AtomizeAndCopyChars_tail [OF sl zonePtr_def this] run
      have "atomizeTail env al cx zonePtr cs pin iv = (r, cx')"
        by simp
      from atomStep_tail [OF so se sl zp this] show ?thesis .
    next
      case True
      then obtain k where k: "zonePtr = Some (Some k)"
        by blast
      then obtain z where z: "zone cx = Some z"
        and hit: "AtomSet_lookup (store cx) (atomCache z) ?l = Some k"
        by (auto simp: zonePtr_def split: option.splits if_splits)
      let ?a = "asPtrUnbarriered (atomCache z ! k)"
      from run sl k z have r: "r = Inr ?a" "cx' = cx"
        unfolding AtomizeAndCopyChars_def sl option.case Let_def zonePtr_def [symmetric]
        by simp_all
      from AtomSet_lookup_Some [OF hit]
      have mem: "atomCache z ! k \<in> set (atomCache z)"
        and m: "match (store cx) (atomCache z ! k) ?l"
        by simp_all
      from m have v: "?a < length (store cx)"
        "codeUnits (a_chars (store cx ! ?a)) = codeUnits cs"
        by (simp_all add: match_chars_iff)
      from co z mem have "resolve env cx (a_chars (store cx ! ?a)) = Some ?a"
        by (simp add: cacheOk_def)
      with resolve_chars_eq [OF v(2), of env cx] have "resolve env cx cs = Some ?a"
        by simp
      with v so se r show ?thesis
        by (auto intro!: atomStep_same)
    qed
  qed
qed

lemma atomsInv_step:
  assumes inv: "atomsInv env cx" and st: "atomStep env cs r cx cx'"
  shows "atomsInv env cx'"
proof -
  from inv have co: "cacheOk env cx"
    by (simp add: atomsInv_def)
  from st have ext: "heapExt (store cx) (store cx')"
    and so': "staticOk cx'" and se': "setsOk cx'"
    and stab: "\<And>ds a. resolve env cx ds = Some a \<Longrightarrow> resolve env cx' ds = Some a"
    and res: "\<And>a. r = Inr a \<Longrightarrow> resolve env cx' cs = Some a \<and> a < length (store cx')
                 \<and> codeUnits (a_chars (store cx' ! a)) = codeUnits cs"
    and zone: "zone cx' = zone cx
           \<or> (\<exists>a z. r = Inr a \<and> zone cx = Some z
                 \<and> zone cx' = Some (z\<lparr>atomCache := atomCache z
                                      @ [\<lparr>asPtrUnbarriered = a, isPinned = False\<rparr>]\<rparr>))"
    by (simp_all add: atomStep_def)
  have old: "asPtrUnbarriered e < length (store cx')
      \<and> resolve env cx' (a_chars (store cx' ! asPtrUnbarriered e)) = Some (asPtrUnbarriered e)"
    if "zone cx = Some z" and "e \<in> set (atomCache z)" for z e
  proof -
    from co that have v: "asPtrUnbarriered e < length (store cx)"
      and r: "resolve env cx (a_chars (store cx ! asPtrUnbarriered e)) = Some (asPtrUnbarriered e)"
      by (simp_all add: cacheOk_def)
    from ext v have "a_chars (store cx' ! asPtrUnbarriered e)
                       = a_chars (store cx ! asPtrUnbarriered e)"
      "asPtrUnbarriered e < length (store cx')"
      by (simp_all add: heapExt_def)
    with stab [OF r] show ?thesis
      by simp
  qed
  have "cacheOk env cx'"
  proof (cases "zone cx' = zone cx")
    case True
    with old show ?thesis
      by (auto simp: cacheOk_def split: option.splits)
  next
    case False
    with zone obtain a z where r: "r = Inr a" and z: "zone cx = Some z"
      and z': "zone cx' = Some (z\<lparr>atomCache := atomCache z
                                      @ [\<lparr>asPtrUnbarriered = a, isPinned = False\<rparr>]\<rparr>)"
      by blast
    from res [OF r] have a: "a < length (store cx')"
      and "resolve env cx' cs = Some a"
      and "codeUnits (a_chars (store cx' ! a)) = codeUnits cs"
      by simp_all
    with resolve_chars_eq [of "a_chars (store cx' ! a)" cs env cx']
    have "resolve env cx' (a_chars (store cx' ! a)) = Some a"
      by simp
    with a old [OF z] show ?thesis
      by (auto simp: cacheOk_def z')
  qed
  with so' se' show ?thesis
    by (simp add: atomsInv_def)
qed





section \<open>The order of resolution in AtomizeAndCopyChars\<close>

lemma AtomizeAndCopyChars_miss:
  assumes "StaticStrings_lookup (staticStrings cx) cs = None" and "cacheMiss env cx cs pin"
  shows "AtomizeAndCopyChars env al cx cs pin iv
           = atomizeTail env al cx (if usesCache cx pin then Some None else None) cs pin iv"
proof (rule AtomizeAndCopyChars_tail [OF assms(1)])
  show "(if usesCache cx pin then Some None else None) =
    (case zone cx of
       None \<Rightarrow> None
     | Some z \<Rightarrow>
         if pin = DoNotPinAtom
         then Some (AtomSet_lookup (store cx) (atomCache z) (Lookup_chars env cs))
         else None)"
    using assms(2) by (cases pin) (auto simp: usesCache_def cacheMiss_def split: option.splits)
  show "\<And>k. (if usesCache cx pin then Some None else None) \<noteq> Some (Some k)"
    by simp
qed




section \<open>Interning across encodings\<close>

lemma AtomSet_find_Some_lookup:
  "AtomSet_find heap s l = Some a \<Longrightarrow>
     \<exists>k. AtomSet_lookup heap s l = Some k \<and> asPtrUnbarriered (s ! k) = a"
  by (auto simp: AtomSet_find_def)

lemma shard_hit:
  assumes "AtomsTable_find env heap t l = Some a"
  shows "\<exists>heap' t'. AtomsTable_atomizeAndCopyChars env al heap t cs pin iv l = (Inr a, heap', t')"
proof -
  let ?i = "getPartitionIndex env l"
  from assms have i: "?i < PartitionCount t"
    and f: "Partition_find env heap (partitions t ! ?i) l = Some a"
    by (auto simp: AtomsTable_find_def split: if_splits)
  from f obtain p where p: "Partition_lookupForAdd env heap (partitions t ! ?i) l = Some p"
    and a: "asPtrUnbarriered (AddPtr_entry (partitions t ! ?i) p) = a"
    by (auto simp: Partition_find_def)
  show ?thesis
    unfolding AtomsTable_atomizeAndCopyChars_def Let_def
    using i p a by simp
qed

lemma cacheResult_fst:
  "fst (cacheResult al uc a cx) = Inr a
   \<or> (fst (cacheResult al uc a cx) = Inl OutOfMemory \<and> uc \<and> \<not> cacheAddOk al)"
  by (simp add: cacheResult_def)

text \<open>A call for characters that the tables resolve returns the atom they resolve to.\<close>

lemma atomize_hit:
  assumes inv: "atomsInv env cx" and res: "resolve env cx cs = Some a"
  shows "fst (AtomizeAndCopyChars env al cx cs pin iv) = Inr a
     \<or> (fst (AtomizeAndCopyChars env al cx cs pin iv) = Inl OutOfMemory
          \<and> \<not> cacheAddOk al \<and> usesCache cx pin)"
proof (cases "StaticStrings_lookup (staticStrings cx) cs")
  case (Some s)
  with res have "s = a"
    by (simp add: resolve_def)
  with Some show ?thesis
    by (simp add: AtomizeAndCopyChars_def)
next
  case sl: None
  let ?l = "Lookup_chars env cs"
  from inv have co: "cacheOk env cx"
    by (simp add: atomsInv_def)
  show ?thesis
  proof (cases "cacheMiss env cx cs pin")
    case False
    then obtain z k where z: "zone cx = Some z" and pin: "pin = DoNotPinAtom"
      and hit: "AtomSet_lookup (store cx) (atomCache z) ?l = Some k"
      by (cases pin) (auto simp: cacheMiss_def split: option.splits)
    let ?c = "asPtrUnbarriered (atomCache z ! k)"
    from AtomSet_lookup_Some [OF hit]
    have mem: "atomCache z ! k \<in> set (atomCache z)"
      and m: "match (store cx) (atomCache z ! k) ?l"
      by simp_all
    from m have cu: "codeUnits (a_chars (store cx ! ?c)) = codeUnits cs"
      by (simp add: match_chars_iff)
    from co z mem have "resolve env cx (a_chars (store cx ! ?c)) = Some ?c"
      by (simp add: cacheOk_def)
    with resolve_chars_eq [OF cu, of env cx] res have "?c = a"
      by simp
    moreover from sl z pin hit
    have "AtomizeAndCopyChars env al cx cs pin iv = (Inr ?c, cx)"
      by (simp add: AtomizeAndCopyChars_def Let_def)
    ultimately show ?thesis
      by simp
  next
    case True
    let ?uc = "usesCache cx pin"
    let ?zp = "if ?uc then Some None else None"
    have zp: "(?zp \<noteq> None) = ?uc"
      by simp
    note eq = AtomizeAndCopyChars_miss [OF sl True, of al iv]
    show ?thesis
    proof (cases "permanentAtoms cx")
      case None
      from res sl None obtain staging where st: "permanentAtomsDuringInit cx = Some staging"
        and f: "AtomSet_find (store cx) staging ?l = Some a"
        by (auto simp: resolve_boot split: option.splits)
      from AtomSet_find_Some_lookup [OF f] obtain k where
        "AtomSet_lookup (store cx) staging ?l = Some k" "asPtrUnbarriered (staging ! k) = a"
        by blast
      with None st have "atomizeTail env al cx ?zp cs pin iv = (Inr a, cx)"
        by (simp add: atomizeTail_def PermanentlyAtomizeAndCopyChars_def)
      with eq show ?thesis
        by simp
    next
      case (Some perm)
      note rr = resolve_running [OF Some, of env cs]
      show ?thesis
      proof (cases "AtomSet_find (store cx) perm ?l")
        case pf: (Some a')
        with res sl rr have "a' = a"
          by simp
        with AtomSet_find_Some_lookup [OF pf] obtain pp where
          "AtomSet_lookup (store cx) perm ?l = Some pp" "asPtrUnbarriered (perm ! pp) = a"
          by blast
        with Some have "atomizeTail env al cx ?zp cs pin iv = cacheResult al ?uc a cx"
          by (simp add: atomizeTail_def)
        with eq cacheResult_fst [of al ?uc a cx] show ?thesis
          by auto
      next
        case pn: None
        then have pl: "AtomSet_lookup (store cx) perm ?l = None"
          by (simp add: AtomSet_find_def)
        from res sl rr pn have vl: "validateLength env (charsLength cs)"
          by (auto split: if_splits)
        with res sl rr pn obtain t where t: "rt_atoms cx = Some t"
          and tf: "AtomsTable_find env (store cx) t ?l = Some a"
          by (auto split: option.splits)
        from shard_hit [OF tf, of al cs pin iv] obtain heap' t' where
          sh: "AtomsTable_atomizeAndCopyChars env al (store cx) t cs pin iv ?l = (Inr a, heap', t')"
          by blast
        with Some pl vl t
        have "atomizeTail env al cx ?zp cs pin iv
                = cacheResult al ?uc a (cx\<lparr>store := heap', rt_atoms := Some t'\<rparr>)"
          by (simp add: atomizeTail_def)
        with eq cacheResult_fst [of al ?uc a "cx\<lparr>store := heap', rt_atoms := Some t'\<rparr>"]
        show ?thesis
          by auto
      qed
    qed
  qed
qed

text \<open>
  C8. Both constructors of a lookup key hash the code units, so a Latin-1 and a two-byte
  string of the same code units get the same hash. A key of characters matches an entry
  exactly when the entry's atom has the key's hash and the key's code units, whichever
  the two encodings are; on a length or hash mismatch \<open>match\<close> is false whatever the
  characters are; and a key built from an atom matches exactly the entries that hold
  that very atom. So, after a call of \<open>AtomizeAndCopyChars\<close> returned an atom, a call for
  the same code units in either encoding returns that atom (or fails for want of memory
  for the zone's cache).
\<close>

theorem cross_encoding_match:
  "(codeUnits cs = codeUnits ds \<longrightarrow>
      l_hash (Lookup_chars env cs) = l_hash (Lookup_chars env ds))
   \<and> match heap entry (Lookup_chars env cs)
       = (asPtrUnbarriered entry < length heap
          \<and> a_hash (heap ! asPtrUnbarriered entry) = l_hash (Lookup_chars env cs)
          \<and> codeUnits (a_chars (heap ! asPtrUnbarriered entry)) = codeUnits cs)
   \<and> (codeUnits cs = codeUnits ds \<and> asPtrUnbarriered entry < length heap
        \<and> a_chars (heap ! asPtrUnbarriered entry) = ds
        \<and> a_hash (heap ! asPtrUnbarriered entry) = l_hash (Lookup_chars env ds) \<longrightarrow>
      match heap entry (Lookup_chars env cs))
   \<and> (l_atom lookup = None \<and> asPtrUnbarriered entry < length heap
      \<and> (charsLength (a_chars (heap ! asPtrUnbarriered entry)) \<noteq> charsLength (l_chars lookup)
         \<or> a_hash (heap ! asPtrUnbarriered entry) \<noteq> l_hash lookup)
      \<longrightarrow> \<not> match heap entry lookup)
   \<and> (Lookup_atom heap atom = Some la
      \<longrightarrow> match heap' entry la = (asPtrUnbarriered entry = atom))
   \<and> (atomsInv env cx \<and> codeUnits cs = codeUnits ds
        \<and> AtomizeAndCopyChars env al cx cs pin iv = (Inr a, cx') \<longrightarrow>
      fst (AtomizeAndCopyChars env al' cx' ds pin' iv') = Inr a
      \<or> (fst (AtomizeAndCopyChars env al' cx' ds pin' iv') = Inl OutOfMemory
          \<and> \<not> cacheAddOk al' \<and> usesCache cx' pin'))"
proof -
  have A: "codeUnits cs = codeUnits ds \<longrightarrow>
      l_hash (Lookup_chars env cs) = l_hash (Lookup_chars env ds)"
    by (simp add: Lookup_chars_hash)
  have B: "match heap entry (Lookup_chars env cs)
       = (asPtrUnbarriered entry < length heap
          \<and> a_hash (heap ! asPtrUnbarriered entry) = l_hash (Lookup_chars env cs)
          \<and> codeUnits (a_chars (heap ! asPtrUnbarriered entry)) = codeUnits cs)"
    by (simp add: match_chars_iff Lookup_chars_hash)
  have B': "codeUnits cs = codeUnits ds \<and> asPtrUnbarriered entry < length heap
        \<and> a_chars (heap ! asPtrUnbarriered entry) = ds
        \<and> a_hash (heap ! asPtrUnbarriered entry) = l_hash (Lookup_chars env ds) \<longrightarrow>
      match heap entry (Lookup_chars env cs)"
    by (simp add: match_chars_iff Lookup_chars_hash)
  have C: "l_atom lookup = None \<and> asPtrUnbarriered entry < length heap
      \<and> (charsLength (a_chars (heap ! asPtrUnbarriered entry)) \<noteq> charsLength (l_chars lookup)
         \<or> a_hash (heap ! asPtrUnbarriered entry) \<noteq> l_hash lookup)
      \<longrightarrow> \<not> match heap entry lookup"
    by (auto simp: match_def Let_def)
  have D: "Lookup_atom heap atom = Some la
      \<longrightarrow> match heap' entry la = (asPtrUnbarriered entry = atom)"
    by (auto simp: match_atom)
  have E: "atomsInv env cx \<and> codeUnits cs = codeUnits ds
        \<and> AtomizeAndCopyChars env al cx cs pin iv = (Inr a, cx') \<longrightarrow>
      fst (AtomizeAndCopyChars env al' cx' ds pin' iv') = Inr a
      \<or> (fst (AtomizeAndCopyChars env al' cx' ds pin' iv') = Inl OutOfMemory
          \<and> \<not> cacheAddOk al' \<and> usesCache cx' pin')"
  proof
    assume h: "atomsInv env cx \<and> codeUnits cs = codeUnits ds
        \<and> AtomizeAndCopyChars env al cx cs pin iv = (Inr a, cx')"
    then have inv: "atomsInv env cx" and cu: "codeUnits ds = codeUnits cs"
      and run: "AtomizeAndCopyChars env al cx cs pin iv = (Inr a, cx')"
      by simp_all
    note st = atomize_step [OF inv run]
    note inv' = atomsInv_step [OF inv st]
    from st have "resolve env cx' cs = Some a"
      by (simp add: atomStep_def)
    with resolve_chars_eq [OF cu, of env cx'] have "resolve env cx' ds = Some a"
      by simp
    from atomize_hit [OF inv' this] show
      "fst (AtomizeAndCopyChars env al' cx' ds pin' iv') = Inr a
      \<or> (fst (AtomizeAndCopyChars env al' cx' ds pin' iv') = Inl OutOfMemory
          \<and> \<not> cacheAddOk al' \<and> usesCache cx' pin')" .
  qed
  show ?thesis
    by (rule conjI [OF A conjI [OF B conjI [OF B' conjI [OF C conjI [OF D E]]]]])
qed

theorem cross_encoding_match_witness:
  "codeUnits (Latin1Chars [233, 97]) = codeUnits (TwoByteChars [233, 97])
   \<and> l_hash (Lookup_chars exEnv (Latin1Chars [233, 97]))
       = l_hash (Lookup_chars exEnv (TwoByteChars [233, 97]))
   \<and> match [exAtomA] (exEntry 0 False) (Lookup_chars exEnv (Latin1Chars [97]))
   \<and> match [exAtomA] (exEntry 0 False) (Lookup_chars exEnv (TwoByteChars [97]))
   \<and> \<not> match [exAtomA] (exEntry 0 False) (Lookup_chars exEnv (TwoByteChars [98]))
   \<and> \<not> match [exAtomA] (exEntry 0 False)
          \<lparr>l_chars = Latin1Chars [97], l_atom = None, l_hash = 98\<rparr>
   \<and> \<not> match [exAtomA] (exEntry 0 False)
          \<lparr>l_chars = Latin1Chars [97, 0], l_atom = None, l_hash = 97\<rparr>
   \<and> (\<exists>la. Lookup_atom [exAtomA] 0 = Some la \<and> match [] (exEntry 0 False) la
           \<and> \<not> match [] (exEntry 1 False) la)
   \<and> atomsInv exEnv exCxEmpty
   \<and> AtomizeAndCopyChars exEnv exAlloc exCxEmpty (Latin1Chars [97]) DoNotPinAtom None
       = (Inr 0, exCxEmpty\<lparr>store := [exAtomA], zone := Some \<lparr>atomCache = [exEntry 0 False]\<rparr>,
                   rt_atoms := Some (exTableA False)\<rparr>)
   \<and> fst (AtomizeAndCopyChars exEnv exAlloc
             (exCxEmpty\<lparr>store := [exAtomA], zone := Some \<lparr>atomCache = [exEntry 0 False]\<rparr>,
                   rt_atoms := Some (exTableA False)\<rparr>)
             (TwoByteChars [97]) PinAtom None) = Inr 0"
proof -
  let ?cx1 = "exCxEmpty\<lparr>store := [exAtomA], zone := Some \<lparr>atomCache = [exEntry 0 False]\<rparr>,
                   rt_atoms := Some (exTableA False)\<rparr>"
  let ?bad1 = "\<lparr>l_chars = Latin1Chars [97], l_atom = None, l_hash = (98 :: HashNumber)\<rparr>"
  let ?bad2 = "\<lparr>l_chars = Latin1Chars [97, 0], l_atom = None, l_hash = (97 :: HashNumber)\<rparr>"
  have cu: "codeUnits (Latin1Chars [233, 97]) = codeUnits (TwoByteChars [233, 97])"
    "codeUnits (TwoByteChars [97]) = codeUnits (Latin1Chars [97])"
    "codeUnits (Latin1Chars [97]) = codeUnits (TwoByteChars [97])"
    by simp_all
  note h = cross_encoding_match
    [where cs = "Latin1Chars [233, 97]" and ds = "TwoByteChars [233, 97]" and env = exEnv]
  note m1 = cross_encoding_match
    [where cs = "Latin1Chars [97]" and ds = "Latin1Chars [97]" and env = exEnv
       and heap = "[exAtomA]" and entry = "exEntry 0 False"]
  note m2 = cross_encoding_match
    [where cs = "TwoByteChars [97]" and ds = "Latin1Chars [97]" and env = exEnv
       and heap = "[exAtomA]" and entry = "exEntry 0 False"]
  note m3 = cross_encoding_match
    [where cs = "TwoByteChars [98]" and env = exEnv
       and heap = "[exAtomA]" and entry = "exEntry 0 False"]
  note s1 = cross_encoding_match
    [where heap = "[exAtomA]" and entry = "exEntry 0 False" and lookup = ?bad1]
  note s2 = cross_encoding_match
    [where heap = "[exAtomA]" and entry = "exEntry 0 False" and lookup = ?bad2]
  note i1 = cross_encoding_match
    [where heap = "[exAtomA]" and atom = 0 and heap' = "[]" and entry = "exEntry 0 False"]
  note i2 = cross_encoding_match
    [where heap = "[exAtomA]" and atom = 0 and heap' = "[]" and entry = "exEntry 1 False"]
  note n = cross_encoding_match
    [where env = exEnv and cx = exCxEmpty and cs = "Latin1Chars [97]" and ds = "TwoByteChars [97]"
       and al = exAlloc and pin = DoNotPinAtom and iv = None and a = 0 and cx' = ?cx1
       and al' = exAlloc and pin' = PinAtom and iv' = None]
  have atomA: "asPtrUnbarriered (exEntry 0 False) < length [exAtomA]"
    "a_chars ([exAtomA] ! asPtrUnbarriered (exEntry 0 False)) = Latin1Chars [97]"
    "a_hash ([exAtomA] ! asPtrUnbarriered (exEntry 0 False))
       = l_hash (Lookup_chars exEnv (Latin1Chars [97]))"
    by (simp_all add: exAtomA_def exEntry_def Lookup_chars_hash hashUnits_ex)
  from h cu(1) have r1: "l_hash (Lookup_chars exEnv (Latin1Chars [233, 97]))
       = l_hash (Lookup_chars exEnv (TwoByteChars [233, 97]))"
    by blast
  from m1 atomA have r2: "match [exAtomA] (exEntry 0 False) (Lookup_chars exEnv (Latin1Chars [97]))"
    by blast
  from m2 atomA cu(2)
  have r3: "match [exAtomA] (exEntry 0 False) (Lookup_chars exEnv (TwoByteChars [97]))"
    by blast
  have "codeUnits (a_chars ([exAtomA] ! asPtrUnbarriered (exEntry 0 False)))
          \<noteq> codeUnits (TwoByteChars [98])"
    by (simp add: exAtomA_def exEntry_def)
  with m3 have r4: "\<not> match [exAtomA] (exEntry 0 False) (Lookup_chars exEnv (TwoByteChars [98]))"
    by blast
  have "l_atom ?bad1 = None \<and> asPtrUnbarriered (exEntry 0 False) < length [exAtomA]
      \<and> (charsLength (a_chars ([exAtomA] ! asPtrUnbarriered (exEntry 0 False)))
           \<noteq> charsLength (l_chars ?bad1)
         \<or> a_hash ([exAtomA] ! asPtrUnbarriered (exEntry 0 False)) \<noteq> l_hash ?bad1)"
    by (simp add: exAtomA_def exEntry_def)
  with s1 have r5: "\<not> match [exAtomA] (exEntry 0 False) ?bad1"
    by blast
  have "l_atom ?bad2 = None \<and> asPtrUnbarriered (exEntry 0 False) < length [exAtomA]
      \<and> (charsLength (a_chars ([exAtomA] ! asPtrUnbarriered (exEntry 0 False)))
           \<noteq> charsLength (l_chars ?bad2)
         \<or> a_hash ([exAtomA] ! asPtrUnbarriered (exEntry 0 False)) \<noteq> l_hash ?bad2)"
    by (simp add: exAtomA_def exEntry_def)
  with s2 have r6: "\<not> match [exAtomA] (exEntry 0 False) ?bad2"
    by blast
  obtain la where la: "Lookup_atom [exAtomA] 0 = Some la"
    by (simp add: Lookup_atom_def)
  from i1 [where la = la] la
  have d1: "match [] (exEntry 0 False) la = (asPtrUnbarriered (exEntry 0 False) = 0)"
    by blast
  from i2 [where la = la] la
  have d2: "match [] (exEntry 1 False) la = (asPtrUnbarriered (exEntry 1 False) = 0)"
    by blast
  have "match [] (exEntry 0 False) la \<and> \<not> match [] (exEntry 1 False) la"
    unfolding d1 d2 by (simp add: exEntry_def)
  with la have r7: "\<exists>la. Lookup_atom [exAtomA] 0 = Some la \<and> match [] (exEntry 0 False) la
           \<and> \<not> match [] (exEntry 1 False) la"
    by blast
  have inv: "atomsInv exEnv exCxEmpty"
    by (simp add: atomsInv_def staticOk_def setsOk_def cacheOk_def tableOk_def partOk_def
          setOk_def exCxEmpty_def exCx_def Partition_new_def)
  have run: "AtomizeAndCopyChars exEnv exAlloc exCxEmpty (Latin1Chars [97]) DoNotPinAtom None
       = (Inr 0, ?cx1)"
    by code_simp
  have nuc: "\<not> usesCache ?cx1 PinAtom"
    by (simp add: usesCache_def)
  from n inv cu(3) run nuc
  have r8: "fst (AtomizeAndCopyChars exEnv exAlloc ?cx1 (TwoByteChars [97]) PinAtom None) = Inr 0"
    by blast
  from cu(1) r1 r2 r3 r4 r5 r6 r7 inv run r8 show ?thesis
    by (intro conjI)
qed

end
